theory Spec2Isabelle
  imports Main "HOL-Library.Sublist"
begin

section \<open>Parameters\<close>

text \<open>
  The module-level parameters of \<^verbatim>\<open>scrape.py\<close> that the crawl logic reads. The
  script fixes them as globals; the model passes them as a record, and
  \<open>source_params\<close> holds the values of the script. \<open>base_url\<close> is the f-string
  \<^verbatim>\<open>f"https://{domain}/"\<close>.
\<close>

record params =
  domain :: string
  max_pages :: nat
  checkpoint_interval :: nat

definition source_params :: params where
  "source_params = \<lparr>domain = ''visakanv.com'', max_pages = 10000, checkpoint_interval = 50\<rparr>"

definition base_url :: "params \<Rightarrow> string" where
  "base_url cfg = ''https://'' @ domain cfg @ ''/''"

section \<open>Exceptions\<close>

text \<open>
  The exceptions that occur in the modelled code. \<open>KeyboardInterrupt\<close> derives from
  \<^verbatim>\<open>BaseException\<close> only; every other one is a subclass of \<^verbatim>\<open>Exception\<close> and
  is caught by \<^verbatim>\<open>except Exception\<close>.
\<close>

datatype py_exception =
    KeyboardInterrupt
  | KeyError string
  | ZeroDivisionError
  | ValueError
  | AttributeError
  | RequestException

fun is_Exception :: "py_exception \<Rightarrow> bool" where
  "is_Exception KeyboardInterrupt = False"
| "is_Exception _ = True"

section \<open>Metadata\<close>

text \<open>The metadata of a page is a Python dict from attribute names to strings and
  integers.\<close>

datatype attr_value = StrVal string | IntVal nat

type_synonym metadata = "string \<rightharpoonup> attr_value"

section \<open>Strings\<close>

text \<open>
  A \<open>string\<close> stands for a Python \<^verbatim>\<open>str\<close> whose code points are below 256; a
  \<open>char\<close> is its code point. The methods of \<^verbatim>\<open>str\<close> that the script calls:
  \<^verbatim>\<open>s.split(sep)\<close>, \<^verbatim>\<open>s.split()\<close>, \<^verbatim>\<open>s.strip()\<close>, \<^verbatim>\<open>s.isdigit()\<close>, \<^verbatim>\<open>int(s)\<close>
  and \<^verbatim>\<open>s.lower()\<close> on ASCII. Among these code points \<^verbatim>\<open>isspace\<close> holds for 9 to 13,
  28 to 32, 0x85 and 0xA0, and \<^verbatim>\<open>isdigit\<close> for the ASCII digits and the superscripts
  0xB2, 0xB3, 0xB9. \<^verbatim>\<open>int\<close> raises \<^verbatim>\<open>ValueError\<close> on a superscript digit and on more
  than 4300 digits.
\<close>

definition code :: "char \<Rightarrow> nat" where
  "code c = of_char c"

fun split_on :: "char \<Rightarrow> string \<Rightarrow> string list" where
  "split_on sep [] = [Nil]"
| "split_on sep (c # cs) =
     (if c = sep then [] # split_on sep cs
      else (case split_on sep cs of [] \<Rightarrow> [c # Nil] | p # ps \<Rightarrow> (c # p) # ps))"

definition join_with :: "char \<Rightarrow> string list \<Rightarrow> string" where
  "join_with sep ps = (case ps of [] \<Rightarrow> [] | p # qs \<Rightarrow> p @ concat (map (\<lambda>q. sep # q) qs))"

definition isspace :: "char \<Rightarrow> bool" where
  "isspace c = ((9 \<le> code c \<and> code c \<le> 13) \<or> (28 \<le> code c \<and> code c \<le> 32)
                 \<or> code c = 0x85 \<or> code c = 0xA0)"

definition strip :: "string \<Rightarrow> string" where
  "strip s = rev (dropWhile isspace (rev (dropWhile isspace s)))"

function split_whitespace :: "string \<Rightarrow> string list" where
  "split_whitespace [] = []"
| "split_whitespace (c # cs) =
     (if isspace c then split_whitespace (dropWhile isspace cs)
      else (c # takeWhile (\<lambda>x. \<not> isspace x) cs)
             # split_whitespace (dropWhile (\<lambda>x. \<not> isspace x) cs))"
  by pat_completeness auto
termination
  by (relation "measure length") (auto simp: length_dropWhile_le less_Suc_eq_le)

definition ascii_digit :: "char \<Rightarrow> bool" where
  "ascii_digit c = (48 \<le> code c \<and> code c \<le> 57)"

definition isdigit :: "string \<Rightarrow> bool" where
  "isdigit s = (s \<noteq> [] \<and> list_all (\<lambda>c. ascii_digit c \<or> code c \<in> {0xB2, 0xB3, 0xB9}) s)"

definition py_int :: "string \<Rightarrow> py_exception + nat" where
  "py_int s =
     (if s \<noteq> [] \<and> list_all ascii_digit s \<and> length s \<le> 4300
      then Inr (foldl (\<lambda>n c. 10 * n + (code c - 48)) 0 s)
      else Inl ValueError)"

definition ascii_lower :: "char \<Rightarrow> char" where
  "ascii_lower c = (if 65 \<le> code c \<and> code c \<le> 90 then char_of (code c + 32) else c)"

section \<open>The standard library's URL functions\<close>

text \<open>
  \<^verbatim>\<open>urlparse\<close> and \<^verbatim>\<open>urljoin\<close> of \<^verbatim>\<open>urllib.parse\<close> (CPython 3.11), with
  \<^verbatim>\<open>allow_fragments\<close> at its default. They raise \<^verbatim>\<open>ValueError\<close> (here \<open>None\<close>) on
  a network location with unbalanced brackets or with a bracketed host that is
  no IPv6 or IPvFuture literal. That last check goes through the \<^verbatim>\<open>ipaddress\<close>
  module and is left open as \<open>bracketed_host_ok\<close>. The check of the network
  location under NFKC normalisation never raises on code points below 256.
  The second argument of \<open>urlsplit\<close> is the default scheme; \<open>urljoin\<close> passes the
  scheme of the parsed base there, which the stripping that \<^verbatim>\<open>urlsplit\<close> applies to
  that argument leaves as it is. \<open>set_order\<close> is the order in which Python iterates
  the set that results from inserting the given sequence of strings.
\<close>

record runtime =
  bracketed_host_ok :: "string \<Rightarrow> bool"
  set_order :: "string list \<Rightarrow> string list"

record parse_result =
  scheme :: string
  netloc :: string
  path :: string
  params :: string
  query :: string
  fragment :: string

definition uses_relative :: "string list" where
  "uses_relative = [Nil, ''ftp'', ''http'', ''gopher'', ''nntp'', ''imap'',
     ''wais'', ''file'', ''https'', ''shttp'', ''mms'',
     ''prospero'', ''rtsp'', ''rtsps'', ''rtspu'', ''sftp'',
     ''svn'', ''svn+ssh'', ''ws'', ''wss'']"

definition uses_netloc :: "string list" where
  "uses_netloc = [Nil, ''ftp'', ''http'', ''gopher'', ''nntp'', ''telnet'',
     ''imap'', ''wais'', ''file'', ''mms'', ''https'', ''shttp'',
     ''snews'', ''prospero'', ''rtsp'', ''rtsps'', ''rtspu'', ''rsync'',
     ''svn'', ''svn+ssh'', ''sftp'', ''nfs'', ''git'', ''git+ssh'',
     ''ws'', ''wss'']"

definition uses_params :: "string list" where
  "uses_params = [Nil, ''ftp'', ''hdl'', ''prospero'', ''http'', ''imap'',
     ''https'', ''shttp'', ''rtsp'', ''rtsps'', ''rtspu'', ''sip'',
     ''sips'', ''mms'', ''sftp'', ''tel'']"

definition scheme_chars :: string where
  "scheme_chars =
     ''abcdefghijklmnopqrstuvwxyzABCDEFGHIJKLMNOPQRSTUVWXYZ0123456789+-.''"

definition ascii_alpha :: "char \<Rightarrow> bool" where
  "ascii_alpha c = ((65 \<le> code c \<and> code c \<le> 90) \<or> (97 \<le> code c \<and> code c \<le> 122))"

text \<open>\<open>before c s\<close> and \<open>after c s\<close> are the two sides of the first \<open>c\<close> in \<open>s\<close>
  (\<^verbatim>\<open>s.split(c, 1)\<close> when \<open>c\<close> occurs in \<open>s\<close>).\<close>

definition before :: "char \<Rightarrow> string \<Rightarrow> string" where
  "before c s = takeWhile (\<lambda>x. x \<noteq> c) s"

definition after :: "char \<Rightarrow> string \<Rightarrow> string" where
  "after c s = tl (dropWhile (\<lambda>x. x \<noteq> c) s)"

text \<open>The scheme test of \<^verbatim>\<open>urlsplit\<close>: \<^verbatim>\<open>i = url.find(':')\<close> with \<open>i > 0\<close>, an ASCII
  letter first, and only scheme characters before the colon.\<close>

definition split_scheme :: "string \<Rightarrow> string \<Rightarrow> string \<times> string" where
  "split_scheme default_scheme url =
     (if CHR '':'' \<in> set url \<and> before CHR '':'' url \<noteq> [] \<and> ascii_alpha (hd url)
         \<and> list_all (\<lambda>c. c \<in> set scheme_chars) (before CHR '':'' url)
      then (map ascii_lower (before CHR '':'' url), after CHR '':'' url)
      else (default_scheme, url))"

definition netloc_delim :: "char \<Rightarrow> bool" where
  "netloc_delim c = (c = CHR ''/'' \<or> c = CHR ''?'' \<or> c = CHR ''#'')"

definition netloc_ok :: "runtime \<Rightarrow> string \<Rightarrow> bool" where
  "netloc_ok rt nl =
     (if CHR ''['' \<in> set nl \<and> CHR '']'' \<in> set nl
      then bracketed_host_ok rt (before CHR '']'' (after CHR ''['' nl))
      else CHR ''['' \<notin> set nl \<and> CHR '']'' \<notin> set nl)"

definition urlsplit :: "runtime \<Rightarrow> string \<Rightarrow> string \<Rightarrow> parse_result option" where
  "urlsplit rt url0 default_scheme =
     (let url1 = dropWhile (\<lambda>c. code c \<le> 32) url0;
          url2 = filter (\<lambda>c. code c \<noteq> 9 \<and> code c \<noteq> 13 \<and> code c \<noteq> 10) url1;
          sch = fst (split_scheme default_scheme url2);
          url3 = snd (split_scheme default_scheme url2);
          has_netloc = (take 2 url3 = ''//'');
          nl = (if has_netloc then takeWhile (\<lambda>c. \<not> netloc_delim c) (drop 2 url3) else []);
          url4 = (if has_netloc then dropWhile (\<lambda>c. \<not> netloc_delim c) (drop 2 url3) else url3);
          frag = (if CHR ''#'' \<in> set url4 then after CHR ''#'' url4 else []);
          url5 = (if CHR ''#'' \<in> set url4 then before CHR ''#'' url4 else url4);
          qry = (if CHR ''?'' \<in> set url5 then after CHR ''?'' url5 else []);
          url6 = (if CHR ''?'' \<in> set url5 then before CHR ''?'' url5 else url5)
      in if has_netloc \<and> \<not> netloc_ok rt nl then None
         else Some \<lparr>scheme = sch, netloc = nl, path = url6, params = [],
                     query = qry, fragment = frag\<rparr>)"

text \<open>\<^verbatim>\<open>_splitparams\<close>: the first \<^verbatim>\<open>;\<close> after the last \<^verbatim>\<open>/\<close>.\<close>

definition splitparams :: "string \<Rightarrow> string \<times> string" where
  "splitparams url =
     (let last_seg = rev (takeWhile (\<lambda>c. c \<noteq> CHR ''/'') (rev url));
          front = rev (dropWhile (\<lambda>c. c \<noteq> CHR ''/'') (rev url))
      in if CHR '';'' \<in> set last_seg
         then (front @ before CHR '';'' last_seg, after CHR '';'' last_seg)
         else (url, []))"

definition urlparse_scheme :: "runtime \<Rightarrow> string \<Rightarrow> string \<Rightarrow> parse_result option" where
  "urlparse_scheme rt url default_scheme =
     (case urlsplit rt url default_scheme of
        None \<Rightarrow> None
      | Some r \<Rightarrow>
          if scheme r \<in> set uses_params \<and> CHR '';'' \<in> set (path r)
          then Some (r\<lparr>path := fst (splitparams (path r)), params := snd (splitparams (path r))\<rparr>)
          else Some r)"

definition urlparse :: "runtime \<Rightarrow> string \<Rightarrow> parse_result option" where
  "urlparse rt url = urlparse_scheme rt url []"

definition urlunsplit :: "string \<Rightarrow> string \<Rightarrow> string \<Rightarrow> string \<Rightarrow> string \<Rightarrow> string" where
  "urlunsplit sch nl url qry frag =
     (let url1 = (if nl \<noteq> [] \<or> (sch \<noteq> [] \<and> sch \<in> set uses_netloc) \<or> take 2 url = ''//''
                  then ''//'' @ nl @ (if url \<noteq> [] \<and> take 1 url \<noteq> ''/'' then ''/'' @ url else url)
                  else url);
          url2 = (if sch \<noteq> [] then sch @ '':'' @ url1 else url1);
          url3 = (if qry \<noteq> [] then url2 @ ''?'' @ qry else url2)
      in if frag \<noteq> [] then url3 @ ''#'' @ frag else url3)"

definition urlunparse :: "parse_result \<Rightarrow> string" where
  "urlunparse r =
     urlunsplit (scheme r) (netloc r)
       (if params r \<noteq> [] then path r @ '';'' @ params r else path r) (query r) (fragment r)"

text \<open>The path resolution of \<^verbatim>\<open>urljoin\<close>: \<open>squeeze\<close> is the slice assignment
  \<^verbatim>\<open>segments[1:-1] = filter(None, segments[1:-1])\<close>, \<open>resolve\<close> the loop that
  builds \<open>resolved_path\<close>.\<close>

definition squeeze :: "string list \<Rightarrow> string list" where
  "squeeze segs =
     (if length segs < 2 then segs
      else hd segs # filter (\<lambda>s. s \<noteq> []) (butlast (tl segs)) @ [last segs])"

fun resolve :: "string list \<Rightarrow> string list \<Rightarrow> string list" where
  "resolve acc [] = acc"
| "resolve acc (seg # segs) =
     (if seg = ''..'' then resolve (butlast acc) segs
      else if seg = ''.'' then resolve acc segs
      else resolve (acc @ [seg]) segs)"

definition urljoin :: "runtime \<Rightarrow> string \<Rightarrow> string \<Rightarrow> string option" where
  "urljoin rt base url =
     (if base = [] then Some url
      else if url = [] then Some base
      else
        (case urlparse rt base of
           None \<Rightarrow> None
         | Some b \<Rightarrow>
            (case urlparse_scheme rt url (scheme b) of
               None \<Rightarrow> None
             | Some u \<Rightarrow>
                 if scheme u \<noteq> scheme b \<or> scheme u \<notin> set uses_relative then Some url
                 else if scheme u \<in> set uses_netloc \<and> netloc u \<noteq> [] then Some (urlunparse u)
                 else
                   (let nl = (if scheme u \<in> set uses_netloc then netloc b else netloc u) in
                    if path u = [] \<and> params u = [] then
                      Some (urlunparse (u\<lparr>netloc := nl, path := path b, params := params b,
                              query := (if query u = [] then query b else query u)\<rparr>))
                    else
                      (let base_parts = (if last (split_on CHR ''/'' (path b)) \<noteq> []
                                         then butlast (split_on CHR ''/'' (path b))
                                         else split_on CHR ''/'' (path b));
                           segments = (if take 1 (path u) = ''/'' then split_on CHR ''/'' (path u)
                                       else squeeze (base_parts @ split_on CHR ''/'' (path u)));
                           resolved = resolve [] segments
                                        @ (if last segments \<in> {''.'', ''..''} then [Nil] else []);
                           joined = join_with CHR ''/'' resolved
                       in Some (urlunparse (u\<lparr>netloc := nl,
                                  path := (if joined = [] then ''/'' else joined)\<rparr>)))))))"

section \<open>Admission filter and page fetcher\<close>

text \<open>\<^verbatim>\<open>is_valid_url\<close>: every exception inside the \<^verbatim>\<open>try\<close> gives \<open>False\<close>.\<close>

definition page_extensions :: "string list" where
  "page_extensions = [''.jpg'', ''.jpeg'', ''.png'', ''.gif'', ''.css'', ''.js'']"

definition is_valid_url :: "runtime \<Rightarrow> params \<Rightarrow> string \<Rightarrow> bool" where
  "is_valid_url rt cfg url =
     (case urlparse rt url of
        None \<Rightarrow> False
      | Some parsed \<Rightarrow>
          scheme parsed \<in> set [''http'', ''https'']
          \<and> suffix (domain cfg) (netloc parsed)
          \<and> \<not> list_ex (\<lambda>ext. sublist ext (path parsed)) page_extensions
          \<and> CHR ''#'' \<notin> set url)"

text \<open>
  What the script reads from the parsed document: \<^verbatim>\<open>soup.title\<close> (\<open>None\<close> when
  there is no title tag, otherwise its \<^verbatim>\<open>.string\<close>, which is \<^verbatim>\<open>None\<close> for a tag without
  a single string child), \<^verbatim>\<open>soup.get_text()\<close>, the
  \<^verbatim>\<open>article:published_time\<close> meta tag (\<open>None\<close> when absent, otherwise its
  \<^verbatim>\<open>content\<close> attribute when it has one), and the \<^verbatim>\<open>href\<close> of every anchor that has
  one, in document order. A tag object is always true in a condition.
\<close>

record soup =
  title_tag :: "string option option"
  page_text :: string
  date_meta :: "string option option"
  hrefs :: "string list"

text \<open>The scan of the URL parts for a year followed by a month; the result is
  the last value assigned to \<^verbatim>\<open>metadata['pub_date']\<close>, if any.\<close>

fun scan_date :: "string list \<Rightarrow> string option \<Rightarrow> py_exception + string option" where
  "scan_date [] found = Inr found"
| "scan_date (part # rest) found =
     (if isdigit part \<and> length part = 4 then
        (case rest of
           [] \<Rightarrow> scan_date rest found
         | nxt # _ \<Rightarrow>
             if isdigit nxt then
               (case py_int nxt of
                  Inl ex \<Rightarrow> Inl ex
                | Inr m \<Rightarrow>
                    if 1 \<le> m \<and> m \<le> 12 then scan_date rest (Some (part @ ''-'' @ nxt))
                    else scan_date rest found)
             else scan_date rest found)
      else scan_date rest found)"

definition fetch_page_metadata :: "string \<Rightarrow> soup \<Rightarrow> py_exception + metadata" where
  "fetch_page_metadata url sp =
     (case title_tag sp of
        Some None \<Rightarrow> Inl AttributeError
      | t \<Rightarrow>
         (let md = [''url'' \<mapsto> StrVal url,
                    ''title'' \<mapsto> StrVal (case t of Some (Some s) \<Rightarrow> strip s | _ \<Rightarrow> ''No Title''),
                    ''word_count'' \<mapsto> IntVal (length (split_whitespace (page_text sp)))]
          in case date_meta sp of
               Some content \<Rightarrow>
                 Inr (md(''pub_date'' \<mapsto>
                        StrVal (case content of Some c \<Rightarrow> c | None \<Rightarrow> ''Unknown'')))
             | None \<Rightarrow>
                 (case scan_date (split_on CHR ''/'' url) None of
                    Inl ex \<Rightarrow> Inr (md(''pub_date'' \<mapsto> StrVal ''Unknown''))
                  | Inr None \<Rightarrow> Inr md
                  | Inr (Some d) \<Rightarrow> Inr (md(''pub_date'' \<mapsto> StrVal d)))))"

text \<open>The body of the loop over the anchors: the URL added to \<open>links\<close>, or
  \<open>None\<close> when the link is skipped.\<close>

definition clean_url :: "parse_result \<Rightarrow> string" where
  "clean_url parsed =
     scheme parsed @ ''://'' @ netloc parsed @ path parsed
       @ (if query parsed \<noteq> [] then ''?'' @ query parsed else [])"

definition admit_href :: "runtime \<Rightarrow> params \<Rightarrow> string \<Rightarrow> string \<Rightarrow> string option" where
  "admit_href rt cfg url href =
     (case urljoin rt url href of
        None \<Rightarrow> None
      | Some full_url \<Rightarrow>
         (case urlparse rt full_url of
            None \<Rightarrow> None
          | Some parsed \<Rightarrow>
              if is_valid_url rt cfg (clean_url parsed) then Some (clean_url parsed) else None))"

text \<open>
  \<^verbatim>\<open>fetch_links\<close>: \<open>http\<close> is \<^verbatim>\<open>requests.get\<close> with \<^verbatim>\<open>raise_for_status\<close> and the
  parser, the page or the exception raised. Every \<^verbatim>\<open>Exception\<close> turns into an
  empty set of links with an empty dict; an interrupt passes through.
\<close>

datatype response = Raises py_exception | Page soup

section \<open>The link graph\<close>

text \<open>
  The graph is a \<^verbatim>\<open>networkx.DiGraph\<close>: a dict of nodes with their attribute dicts, and
  a set of directed edges. \<^verbatim>\<open>add_node(n, **attr)\<close> creates the node when it is
  missing and updates its attribute dict with \<open>attr\<close>; \<^verbatim>\<open>add_edge(u, v)\<close> creates
  both end points (with no attributes) when they are missing and adds the edge.
\<close>

record digraph =
  nodes :: "string \<rightharpoonup> metadata"
  edges :: "(string \<times> string) set"

definition empty_graph :: digraph where
  "empty_graph = \<lparr>nodes = Map.empty, edges = {}\<rparr>"

definition add_node :: "string \<Rightarrow> metadata \<Rightarrow> digraph \<Rightarrow> digraph" where
  "add_node n attr g =
     g\<lparr>nodes := (nodes g)(n \<mapsto> (case nodes g n of None \<Rightarrow> attr | Some old \<Rightarrow> old ++ attr))\<rparr>"

definition touch_node :: "string \<Rightarrow> (string \<rightharpoonup> metadata) \<Rightarrow> (string \<rightharpoonup> metadata)" where
  "touch_node n ns = (case ns n of None \<Rightarrow> ns(n \<mapsto> Map.empty) | Some _ \<Rightarrow> ns)"

definition add_edge :: "string \<Rightarrow> string \<Rightarrow> digraph \<Rightarrow> digraph" where
  "add_edge u v g =
     g\<lparr>nodes := touch_node v (touch_node u (nodes g)), edges := insert (u, v) (edges g)\<rparr>"

section \<open>The crawl state and the process around it\<close>

text \<open>
  The four globals \<open>graph\<close>, \<open>visited\<close>, \<open>queue\<close> (a deque, front first) and
  \<open>queued\<close>, together with what the process leaves outside: the checkpoint file
  (the pickled 4-tuple, \<open>None\<close> while the file does not exist), the exported
  graph export file, and the URLs of the progress messages printed so far, oldest
  first.
\<close>

type_synonym checkpoint = "digraph \<times> string set \<times> string list \<times> string set"

record process =
  graph :: digraph
  visited :: "string set"
  queue :: "string list"
  queued :: "string set"
  checkpoint_file :: "checkpoint option"
  output_file :: "digraph option"
  progress :: "string list"

text \<open>
  The result of \<^verbatim>\<open>fetch_links(url)\<close> as \<open>scrape\<close> sees it: the links in the order
  in which the \<^verbatim>\<open>for\<close> loop iterates the returned set, with the metadata dict,
  or an exception that \<^verbatim>\<open>fetch_links\<close> does not catch.
\<close>

type_synonym fetcher = "string \<Rightarrow> py_exception + (string list \<times> metadata)"

definition fetch_links ::
  "runtime \<Rightarrow> params \<Rightarrow> (string \<Rightarrow> response) \<Rightarrow> fetcher" where
  "fetch_links rt cfg http url =
     (case http url of
        Raises ex \<Rightarrow> if is_Exception ex then Inr ([], Map.empty) else Inl ex
      | Page sp \<Rightarrow>
         (case fetch_page_metadata url sp of
            Inl ex \<Rightarrow> Inr ([], Map.empty)
          | Inr md \<Rightarrow>
              Inr (set_order rt (List.map_filter (admit_href rt cfg url) (hrefs sp)), md)))"

text \<open>
  \<^verbatim>\<open>save_checkpoint()\<close> pickles the four globals into the checkpoint file and then
  calls \<^verbatim>\<open>analyze_queue()\<close>, which only prints, but parses every queued URL for
  that: \<^verbatim>\<open>urlparse(url).path\<close> raises \<^verbatim>\<open>ValueError\<close> on a URL that \<open>urlparse\<close> rejects,
  after the file has been written. Nothing is parsed when the queue is empty.
\<close>

definition globals :: "process \<Rightarrow> checkpoint" where
  "globals e = (graph e, visited e, queue e, queued e)"

definition write_checkpoint :: "process \<Rightarrow> process" where
  "write_checkpoint e = e\<lparr>checkpoint_file := Some (globals e)\<rparr>"

definition analyze_queue :: "runtime \<Rightarrow> process \<Rightarrow> py_exception option" where
  "analyze_queue rt e =
     (if queue e = [] then None
      else if list_all (\<lambda>url. urlparse rt url \<noteq> None) (queue e) then None
      else Some ValueError)"

definition save_checkpoint :: "runtime \<Rightarrow> process \<Rightarrow> py_exception option \<times> process" where
  "save_checkpoint rt e = (analyze_queue rt (write_checkpoint e), write_checkpoint e)"

text \<open>\<^verbatim>\<open>url = queue.popleft(); queued.remove(url)\<close>: the second raises \<^verbatim>\<open>KeyError\<close>
  when the URL is not in the set, after the first has already removed it from the
  queue.\<close>

definition popleft :: "process \<Rightarrow> process" where
  "popleft e = e\<lparr>queue := tl (queue e)\<rparr>"

definition dequeue :: "process \<Rightarrow> py_exception + process" where
  "dequeue e =
     (let url = hd (queue e); e1 = popleft e in
      if url \<in> queued e1 then Inr (e1\<lparr>queued := queued e1 - {url}\<rparr>) else Inl (KeyError url))"

text \<open>\<^verbatim>\<open>print(progress_msg); visited.add(url); graph.add_node(url, **metadata)\<close>\<close>

definition record_page :: "string \<Rightarrow> metadata \<Rightarrow> process \<Rightarrow> process" where
  "record_page url md e =
     e\<lparr>progress := progress e @ [url],
       visited := insert url (visited e),
       graph := add_node url md (graph e)\<rparr>"

text \<open>The body of \<^verbatim>\<open>for link in links\<close>.\<close>

definition admit_link :: "string \<Rightarrow> process \<Rightarrow> string \<Rightarrow> process" where
  "admit_link url e link =
     (let e1 = e\<lparr>graph := add_edge url link (graph e)\<rparr> in
      if link \<notin> visited e1 \<and> link \<notin> queued e1
      then e1\<lparr>queue := queue e1 @ [link], queued := insert link (queued e1)\<rparr>
      else e1)"

definition admit_links :: "string \<Rightarrow> string list \<Rightarrow> process \<Rightarrow> process" where
  "admit_links url links e = foldl (admit_link url) e links"

text \<open>\<^verbatim>\<open>if counter % checkpoint_interval == 0: save_checkpoint()\<close>; the modulus
  raises when the interval is 0. The result is the exception raised, if any, and
  the process as the statement leaves it.\<close>

definition periodic_checkpoint ::
  "runtime \<Rightarrow> params \<Rightarrow> nat \<Rightarrow> process \<Rightarrow> py_exception option \<times> process" where
  "periodic_checkpoint rt cfg counter e =
     (if checkpoint_interval cfg = 0 then (Some ZeroDivisionError, e)
      else if counter mod checkpoint_interval cfg = 0 then save_checkpoint rt e
      else (None, e))"

section \<open>The crawl loop\<close>

text \<open>
  \<open>scrape_loop\<close> is the \<^verbatim>\<open>while\<close> loop of \<^verbatim>\<open>scrape()\<close> with its local \<open>counter\<close>.
  It returns the counter, or the exception that left the loop, and in both cases
  the process as it is at that moment (the globals are what the handlers in the
  main block save). In this function an interrupt comes from the fetcher: it
  arrives while the loop blocks in \<^verbatim>\<open>fetch_links\<close> or, with the same state, in
  \<^verbatim>\<open>time.sleep\<close>. An interrupt between two other statements of the loop is covered
  by the points of the loop, further down.
\<close>

function scrape_loop ::
  "runtime \<Rightarrow> params \<Rightarrow> fetcher \<Rightarrow> nat \<Rightarrow> process \<Rightarrow> (py_exception + nat) \<times> process" where
  "scrape_loop rt cfg fetch counter e =
     (if queue e \<noteq> [] \<and> counter < max_pages cfg then
        (let counter1 = counter + 1; url = hd (queue e) in
         case dequeue e of
           Inl ex \<Rightarrow> (Inl ex, popleft e)
         | Inr e1 \<Rightarrow>
             if url \<in> visited e1 then scrape_loop rt cfg fetch (counter1 - 1) e1
             else
               (case fetch url of
                  Inl ex \<Rightarrow> (Inl ex, e1)
                | Inr (links, md) \<Rightarrow>
                    (let e2 = admit_links url links (record_page url md e1);
                         raised = fst (periodic_checkpoint rt cfg counter1 e2);
                         e3 = snd (periodic_checkpoint rt cfg counter1 e2)
                     in case raised of
                          Some ex \<Rightarrow> (Inl ex, e3)
                        | None \<Rightarrow> scrape_loop rt cfg fetch counter1 e3)))
      else (Inr counter, e))"
  by pat_completeness auto
termination
  by (relation "measures [\<lambda>(rt, cfg, fetch, counter, e). max_pages cfg - counter,
                           \<lambda>(rt, cfg, fetch, counter, e). length (queue e)]")
     (auto simp: dequeue_def popleft_def Let_def split: if_splits)

text \<open>\<^verbatim>\<open>scrape()\<close>: the counter starts at \<^verbatim>\<open>len(visited)\<close>.\<close>

definition scrape ::
  "runtime \<Rightarrow> params \<Rightarrow> fetcher \<Rightarrow> process \<Rightarrow> (py_exception + nat) \<times> process" where
  "scrape rt cfg fetch e = scrape_loop rt cfg fetch (card (visited e)) e"

section \<open>The main block\<close>

text \<open>
  The process starts with the module-level \<open>graph\<close>, \<open>visited\<close> and \<open>queued\<close>
  empty. An existing checkpoint file replaces all four globals; otherwise the
  queue and \<open>queued\<close> are seeded with the base URL. A normal return of \<open>scrape\<close>
  exports the graph. The handler of \<^verbatim>\<open>KeyboardInterrupt\<close> saves a checkpoint and
  falls through to the end of the script; the handler of \<^verbatim>\<open>Exception\<close> saves a
  checkpoint and re-raises. An exception that \<open>save_checkpoint\<close> raises inside a
  handler leaves the script instead (\<open>after_save\<close>). Reading and writing the two
  files is taken to succeed.
\<close>

datatype exit_status = ExitNormal | ExitRaised py_exception

definition fresh_process :: "params \<Rightarrow> process" where
  "fresh_process cfg =
     \<lparr>graph = empty_graph, visited = {}, queue = [base_url cfg], queued = {base_url cfg},
      checkpoint_file = None, output_file = None, progress = []\<rparr>"

definition load_checkpoint :: "checkpoint \<Rightarrow> process" where
  "load_checkpoint cp =
     (case cp of (g, v, q, qd) \<Rightarrow>
        \<lparr>graph = g, visited = v, queue = q, queued = qd,
         checkpoint_file = Some cp, output_file = None, progress = []\<rparr>)"

definition start_process :: "params \<Rightarrow> checkpoint option \<Rightarrow> process" where
  "start_process cfg disk =
     (case disk of Some cp \<Rightarrow> load_checkpoint cp | None \<Rightarrow> fresh_process cfg)"

definition after_save ::
  "exit_status \<Rightarrow> py_exception option \<times> process \<Rightarrow> exit_status \<times> process" where
  "after_save status saved =
     (case fst saved of None \<Rightarrow> (status, snd saved) | Some ex \<Rightarrow> (ExitRaised ex, snd saved))"

definition main ::
  "runtime \<Rightarrow> params \<Rightarrow> fetcher \<Rightarrow> checkpoint option \<Rightarrow> exit_status \<times> process" where
  "main rt cfg fetch disk =
     (case scrape rt cfg fetch (start_process cfg disk) of
        (Inr total_pages, e) \<Rightarrow> (ExitNormal, e\<lparr>output_file := Some (graph e)\<rparr>)
      | (Inl ex, e) \<Rightarrow>
          if ex = KeyboardInterrupt then after_save ExitNormal (save_checkpoint rt e)
          else if is_Exception ex then after_save (ExitRaised ex) (save_checkpoint rt e)
          else (ExitRaised ex, e))"

section \<open>The points of the loop\<close>

text \<open>
  The same loop, one statement of \<^verbatim>\<open>scrape()\<close> at a time. \<open>LoopTest c e\<close> is the test
  of the \<^verbatim>\<open>while\<close> condition with counter \<open>c\<close>; \<open>Popped c url e\<close> is the point after
  \<^verbatim>\<open>url = queue.popleft()\<close>; \<open>Dequeued c url e\<close> is the point after
  \<^verbatim>\<open>queued.remove(url)\<close>, where the loop goes on to fetch \<open>url\<close>;
  \<open>Marked c url links md e\<close> is the point after \<^verbatim>\<open>visited.add(url)\<close>, with the fetched
  links and metadata in hand; \<open>Admitting c url links e\<close> is the head of
  \<^verbatim>\<open>for link in links\<close> with \<open>links\<close> still to come; \<open>Edged c url l links e\<close> is the
  point after \<^verbatim>\<open>graph.add_edge(url, l)\<close>; \<open>Appended c url l links e\<close> is the point after
  \<^verbatim>\<open>queue.append(l)\<close>, before \<^verbatim>\<open>queued.add(l)\<close>.
\<close>

datatype point =
    LoopTest nat process
  | Popped nat string process
  | Dequeued nat string process
  | Marked nat string "string list" metadata process
  | Admitting nat string "string list" process
  | Edged nat string string "string list" process
  | Appended nat string string "string list" process

fun proc_of :: "point \<Rightarrow> process" where
  "proc_of (LoopTest c e) = e"
| "proc_of (Popped c url e) = e"
| "proc_of (Dequeued c url e) = e"
| "proc_of (Marked c url links md e) = e"
| "proc_of (Admitting c url links e) = e"
| "proc_of (Edged c url l links e) = e"
| "proc_of (Appended c url l links e) = e"

inductive step :: "runtime \<Rightarrow> params \<Rightarrow> fetcher \<Rightarrow> point \<Rightarrow> point \<Rightarrow> bool"
  for rt cfg fetch where
  pop: "queue e \<noteq> [] \<Longrightarrow> c < max_pages cfg \<Longrightarrow>
        step rt cfg fetch (LoopTest c e) (Popped (c + 1) (hd (queue e)) (popleft e))"
| remove: "url \<in> queued e \<Longrightarrow>
        step rt cfg fetch (Popped c url e) (Dequeued c url (e\<lparr>queued := queued e - {url}\<rparr>))"
| skip: "url \<in> visited e \<Longrightarrow> step rt cfg fetch (Dequeued c url e) (LoopTest (c - 1) e)"
| mark: "url \<notin> visited e \<Longrightarrow> fetch url = Inr (links, md) \<Longrightarrow>
         step rt cfg fetch (Dequeued c url e)
           (Marked c url links md
              (e\<lparr>progress := progress e @ [url], visited := insert url (visited e)\<rparr>))"
| node: "step rt cfg fetch (Marked c url links md e)
           (Admitting c url links (e\<lparr>graph := add_node url md (graph e)\<rparr>))"
| edge: "step rt cfg fetch (Admitting c url (l # links) e)
           (Edged c url l links (e\<lparr>graph := add_edge url l (graph e)\<rparr>))"
| known: "l \<in> visited e \<or> l \<in> queued e \<Longrightarrow>
          step rt cfg fetch (Edged c url l links e) (Admitting c url links e)"
| append: "l \<notin> visited e \<Longrightarrow> l \<notin> queued e \<Longrightarrow>
           step rt cfg fetch (Edged c url l links e)
             (Appended c url l links (e\<lparr>queue := queue e @ [l]\<rparr>))"
| add: "step rt cfg fetch (Appended c url l links e)
          (Admitting c url links (e\<lparr>queued := insert l (queued e)\<rparr>))"
| loop: "periodic_checkpoint rt cfg c e = (None, e1) \<Longrightarrow>
         step rt cfg fetch (Admitting c url [] e) (LoopTest c e1)"

text \<open>
  The points that the crawl passes through, over any number of runs of the
  script against the same site. A run starts fresh, or from the checkpoint file
  that an earlier run left: the one of its last periodic save (\<open>resume\<close>, the run
  may have ended or been killed at any later point), or the one that a handler of
  the main block wrote (\<open>interrupted\<close>). A \<^verbatim>\<open>KeyboardInterrupt\<close> can arrive between
  any two statements of the loop, and a statement that raises (the fetch,
  \<^verbatim>\<open>queued.remove\<close>, the periodic checkpoint) leaves the globals as they are at the
  point before it; in both cases the handler pickles the four globals as it finds
  them. The same holds in the main block between the two statements that seed a
  fresh run, \<^verbatim>\<open>queue = deque([base_url])\<close> and \<^verbatim>\<open>queued = {base_url}\<close> (\<open>seeding\<close>).
\<close>

inductive crawl_point :: "runtime \<Rightarrow> params \<Rightarrow> fetcher \<Rightarrow> point \<Rightarrow> bool"
  for rt cfg fetch where
  start: "crawl_point rt cfg fetch
            (LoopTest (card (visited (fresh_process cfg))) (fresh_process cfg))"
| run: "crawl_point rt cfg fetch pt \<Longrightarrow> step rt cfg fetch pt pt1 \<Longrightarrow>
        crawl_point rt cfg fetch pt1"
| resume: "crawl_point rt cfg fetch pt \<Longrightarrow> checkpoint_file (proc_of pt) = Some cp \<Longrightarrow>
           crawl_point rt cfg fetch
             (LoopTest (card (visited (load_checkpoint cp))) (load_checkpoint cp))"
| interrupted: "crawl_point rt cfg fetch pt \<Longrightarrow> cp = globals (proc_of pt) \<Longrightarrow>
           crawl_point rt cfg fetch
             (LoopTest (card (visited (load_checkpoint cp))) (load_checkpoint cp))"
| seeding: "cp = (empty_graph, {}, [base_url cfg], {}) \<Longrightarrow>
           crawl_point rt cfg fetch
             (LoopTest (card (visited (load_checkpoint cp))) (load_checkpoint cp))"

section \<open>Breadth-first order\<close>

text \<open>
  Breadth-first traversal as the specification words it, level by level: the
  first level is the seed; the next level is made of the pages that the pages of
  this level link to and that were not discovered before, in the order of their
  first discovery. \<open>bfs_levels succs seen level n\<close> lists the first \<open>n\<close> pages of
  the levels from \<open>level\<close> on.
\<close>

fun fresh :: "string set \<Rightarrow> string list \<Rightarrow> string list" where
  "fresh seen [] = []"
| "fresh seen (v # vs) = (if v \<in> seen then fresh seen vs else v # fresh (insert v seen) vs)"

definition next_level :: "(string \<Rightarrow> string list) \<Rightarrow> string set \<Rightarrow> string list \<Rightarrow> string list" where
  "next_level succs seen level = fresh seen (concat (map succs level))"

function bfs_levels ::
  "(string \<Rightarrow> string list) \<Rightarrow> string set \<Rightarrow> string list \<Rightarrow> nat \<Rightarrow> string list" where
  "bfs_levels succs seen level n =
     (if level = [] \<or> n = 0 then []
      else take n level
             @ bfs_levels succs (seen \<union> set (next_level succs seen level))
                 (next_level succs seen level) (n - length level))"
  by pat_completeness auto
termination
  by (relation "measure (\<lambda>(succs, seen, level, n). n)") auto

definition bfs_order :: "(string \<Rightarrow> string list) \<Rightarrow> string \<Rightarrow> nat \<Rightarrow> string list" where
  "bfs_order succs seed n = bfs_levels succs {seed} [seed] n"

section \<open>Small sites for concrete runs\<close>

text \<open>
  A page budget of two with a checkpoint every second page, a site on which
  every page links to one new page, a site of two pages, and a fetcher that is
  interrupted while it fetches one given URL.
\<close>

definition small_params :: params where
  "small_params = \<lparr>domain = ''d'', max_pages = 2, checkpoint_interval = 2\<rparr>"

definition chain_site :: fetcher where
  "chain_site url = Inr ([url @ ''x''], Map.empty)"

definition two_pages :: fetcher where
  "two_pages url = (if url = ''https://d/'' then Inr ([''https://d/a''], Map.empty)
                    else Inr ([], Map.empty))"

definition interrupt_at :: "string \<Rightarrow> fetcher \<Rightarrow> fetcher" where
  "interrupt_at u fetch url = (if url = u then Inl KeyboardInterrupt else fetch url)"

definition plain_runtime :: runtime where
  "plain_runtime = \<lparr>bracketed_host_ok = (\<lambda>h. False), set_order = remdups\<rparr>"

section \<open>Invariants and the order of the queue\<close>

text \<open>
  Within one run the set \<open>queued\<close> mirrors the queue, which holds no URL twice,
  except between the two statements of a pair (\<^verbatim>\<open>popleft\<close> and \<^verbatim>\<open>remove\<close>, \<^verbatim>\<open>append\<close>
  and \<^verbatim>\<open>add\<close>), where the second update is still due. At every point of the crawl,
  over all runs, the nodes of the graph are visited pages or targets of links from
  visited pages, in the globals and in the checkpoint on disk.
\<close>

definition queue_mirror :: "string list \<Rightarrow> string set \<Rightarrow> bool" where
  "queue_mirror q qd = (qd = set q \<and> distinct q)"

fun point_mirror :: "point \<Rightarrow> bool" where
  "point_mirror (LoopTest c e) = queue_mirror (queue e) (queued e)"
| "point_mirror (Popped c url e) = (url \<in> queued e \<and> queue_mirror (queue e) (queued e - {url}))"
| "point_mirror (Dequeued c url e) = queue_mirror (queue e) (queued e)"
| "point_mirror (Marked c url links md e) = queue_mirror (queue e) (queued e)"
| "point_mirror (Admitting c url links e) = queue_mirror (queue e) (queued e)"
| "point_mirror (Edged c url l links e) = queue_mirror (queue e) (queued e)"
| "point_mirror (Appended c url l links e)
     = (l \<notin> queued e \<and> queue_mirror (queue e) (insert l (queued e)))"

definition nodes_known :: "digraph \<Rightarrow> string set \<Rightarrow> bool" where
  "nodes_known g v =
     (dom (nodes g) \<subseteq> v \<union> snd ` edges g \<and> fst ` edges g \<subseteq> v
      \<and> (\<forall>n md. nodes g n = Some md \<longrightarrow> md \<noteq> Map.empty \<longrightarrow> n \<in> v))"

definition checkpoint_known :: "checkpoint \<Rightarrow> bool" where
  "checkpoint_known cp = (case cp of (g, v, q, qd) \<Rightarrow> nodes_known g v)"

fun current_visited :: "point \<Rightarrow> bool" where
  "current_visited (LoopTest c e) = True"
| "current_visited (Popped c url e) = True"
| "current_visited (Dequeued c url e) = True"
| "current_visited (Marked c url links md e) = (url \<in> visited e)"
| "current_visited (Admitting c url links e) = (url \<in> visited e)"
| "current_visited (Edged c url l links e) = (url \<in> visited e)"
| "current_visited (Appended c url l links e) = (url \<in> visited e)"

definition graph_inv :: "point \<Rightarrow> bool" where
  "graph_inv pt =
     (nodes_known (graph (proc_of pt)) (visited (proc_of pt))
      \<and> (\<forall>cp. checkpoint_file (proc_of pt) = Some cp \<longrightarrow> checkpoint_known cp)
      \<and> current_visited pt)"

text \<open>What the loop never takes back: the progress messages printed, the visited
  set, and, for a page that is visited, its node with its attributes and the
  absence of further edges from it (a visited page is not processed again).\<close>

definition keeps :: "process \<Rightarrow> process \<Rightarrow> bool" where
  "keeps e e1 =
     (prefix (progress e) (progress e1) \<and> visited e \<subseteq> visited e1
      \<and> (\<forall>u a. u \<in> visited e \<longrightarrow> nodes (graph e) u = Some a \<longrightarrow> nodes (graph e1) u = Some a)
      \<and> (\<forall>u x. u \<in> visited e \<longrightarrow> (u, x) \<in> edges (graph e1) \<longrightarrow> (u, x) \<in> edges (graph e)))"

text \<open>The URLs that the crawl can still come to on a site whose page \<open>u\<close> links to
  \<open>succs u\<close>: the URLs of the frontier that are not visited, and the URLs that are
  not visited and linked from a page that the crawl can still come to. The link
  graph reachable from the frontier is unbounded when this set is infinite.\<close>

inductive_set frontier_reach ::
  "(string \<Rightarrow> string list) \<Rightarrow> string set \<Rightarrow> string set \<Rightarrow> string set"
  for succs :: "string \<Rightarrow> string list" and seen :: "string set" and front :: "string set" where
  front: "u \<in> front \<Longrightarrow> u \<notin> seen \<Longrightarrow> u \<in> frontier_reach succs seen front"
| link: "u \<in> frontier_reach succs seen front \<Longrightarrow> l \<in> set (succs u) \<Longrightarrow> l \<notin> seen \<Longrightarrow>
         l \<in> frontier_reach succs seen front"

text \<open>The order in which a first-in first-out queue hands out pages when every
  page appends its undiscovered links: the first \<open>n\<close> pages taken from \<open>q\<close>.\<close>

fun queue_order ::
  "(string \<Rightarrow> string list) \<Rightarrow> string set \<Rightarrow> string list \<Rightarrow> nat \<Rightarrow> string list" where
  "queue_order succs seen [] n = []"
| "queue_order succs seen (u # q) 0 = []"
| "queue_order succs seen (u # q) (Suc n) =
     u # queue_order succs (seen \<union> set (fresh seen (succs u))) (q @ fresh seen (succs u)) n"

text \<open>The fetch of a URL fails when \<^verbatim>\<open>requests.get\<close> or \<^verbatim>\<open>raise_for_status\<close> raises an
  \<^verbatim>\<open>Exception\<close>, or when extracting the metadata of the page raises.\<close>

definition fetch_fails :: "(string \<Rightarrow> response) \<Rightarrow> string \<Rightarrow> bool" where
  "fetch_fails http url =
     (case http url of Raises ex \<Rightarrow> is_Exception ex | Page sp \<Rightarrow> title_tag sp = Some None)"

definition dead_site :: "string \<Rightarrow> response" where
  "dead_site url = Raises RequestException"

definition no_interval_params :: params where
  "no_interval_params = \<lparr>domain = ''d'', max_pages = 2, checkpoint_interval = 0\<rparr>"

text \<open>A site with a diamond and a back link, and a budget of four pages.\<close>

definition diamond_links :: "string \<Rightarrow> string list" where
  "diamond_links url =
     (if url = ''https://d/'' then [''https://d/a'', ''https://d/b'']
      else if url = ''https://d/a'' then [''https://d/c'', ''https://d/'']
      else if url = ''https://d/b'' then [''https://d/c'', ''https://d/e'']
      else [])"

definition roomy_params :: params where
  "roomy_params = \<lparr>domain = ''d'', max_pages = 4, checkpoint_interval = 50\<rparr>"

text \<open>The runs used as concrete inputs: a fresh crawl of the chain site up to the
  budget, as \<open>scrape\<close> returns it and as the whole script ends it, and the run that
  resumes from its checkpoint; a fresh run on the site of two
  pages, the same run interrupted while it fetches the base URL, and the run that
  resumes from the checkpoint of the interrupted one.\<close>

definition chain_crawl :: "(py_exception + nat) \<times> process" where
  "chain_crawl = scrape plain_runtime small_params chain_site (fresh_process small_params)"

definition chain_run :: "exit_status \<times> process" where
  "chain_run = main plain_runtime small_params chain_site None"

definition chain_rerun :: "exit_status \<times> process" where
  "chain_rerun = main plain_runtime small_params chain_site (checkpoint_file (snd chain_run))"

definition whole_run :: "exit_status \<times> process" where
  "whole_run = main plain_runtime small_params two_pages None"

definition interrupted_run :: "exit_status \<times> process" where
  "interrupted_run =
     main plain_runtime small_params (interrupt_at (base_url small_params) two_pages) None"

definition resumed_run :: "exit_status \<times> process" where
  "resumed_run =
     main plain_runtime small_params two_pages (checkpoint_file (snd interrupted_run))"

text \<open>The process at the point between \<^verbatim>\<open>queue.append(link)\<close> and
  \<^verbatim>\<open>queued.add(link)\<close>, when the fresh run on the site of two pages admits the link
  of the base page; and the run that starts from the checkpoint that holds these
  globals.\<close>

definition torn_state :: process where
  "torn_state =
     \<lparr>graph = \<lparr>nodes = [''https://d/'' \<mapsto> Map.empty, ''https://d/a'' \<mapsto> Map.empty],
                edges = {(''https://d/'', ''https://d/a'')}\<rparr>,
      visited = {''https://d/''}, queue = [''https://d/a''], queued = {},
      checkpoint_file = None, output_file = None, progress = [''https://d/'']\<rparr>"

definition torn_run :: "exit_status \<times> process" where
  "torn_run = main plain_runtime small_params two_pages (Some (globals torn_state))"

text \<open>A process that has loaded a checkpoint in which the base page is visited
  and its two links wait in the queue.\<close>

definition two_waiting :: process where
  "two_waiting =
     load_checkpoint
       (\<lparr>nodes = [''https://d/'' \<mapsto> Map.empty, ''https://d/a'' \<mapsto> Map.empty,
                  ''https://d/b'' \<mapsto> Map.empty],
         edges = {(''https://d/'', ''https://d/a''), (''https://d/'', ''https://d/b'')}\<rparr>,
        {''https://d/''}, [''https://d/a'', ''https://d/b''], {''https://d/a'', ''https://d/b''})"

text \<open>The loop on that process, with a budget of four pages, on a site where
  every request fails.\<close>

definition dead_crawl :: "(py_exception + nat) \<times> process" where
  "dead_crawl =
     scrape_loop plain_runtime roomy_params (fetch_links plain_runtime roomy_params dead_site) 1
       two_waiting"

text \<open>The process that has loaded the checkpoint of the fresh crawl of the chain
  site, with a budget of four pages.\<close>

definition chain_resumed :: process where
  "chain_resumed = start_process roomy_params (checkpoint_file (snd chain_run))"

declare scrape_loop.simps [simp del]
declare bfs_levels.simps [simp del]
declare split_whitespace.simps [simp del]

section \<open>The queue and its membership set\<close>

text \<open>Every statement of the loop takes a point at which \<open>queued\<close> mirrors the
  queue (up to the pending second update of a pair) to such a point; so every
  point of one run has the property when the run starts with it, as a fresh run
  does.\<close>

lemma mirror_step: "step rt cfg fetch pt pt1 \<Longrightarrow> point_mirror pt \<Longrightarrow> point_mirror pt1"
proof (induction rule: step.induct)
  case (pop e c)
  then show ?case
    by (cases "queue e") (auto simp: queue_mirror_def popleft_def)
next
  case (remove url e c)
  then show ?case by (simp add: queue_mirror_def)
next
  case (skip url e c)
  then show ?case by simp
next
  case (mark url e links md c)
  then show ?case by simp
next
  case (node c url links md e)
  then show ?case by simp
next
  case (edge c url l links e)
  then show ?case by simp
next
  case (known l e c url links)
  then show ?case by simp
next
  case (append l e c url links)
  then show ?case by (auto simp: queue_mirror_def)
next
  case (add c url l links e)
  then show ?case by simp
next
  case (loop c e e1 url)
  then show ?case
    by (auto simp: periodic_checkpoint_def save_checkpoint_def write_checkpoint_def
             split: if_splits)
qed

lemma mirror_steps:
  "(step rt cfg fetch)\<^sup>*\<^sup>* pt pt1 \<Longrightarrow> point_mirror pt \<Longrightarrow> point_mirror pt1"
  by (induction rule: rtranclp_induct) (auto intro: mirror_step)

lemma mirror_fresh_run:
  "(step rt cfg fetch)\<^sup>*\<^sup>* (LoopTest c (fresh_process cfg)) pt \<Longrightarrow> point_mirror pt"
  by (erule mirror_steps) (simp add: queue_mirror_def fresh_process_def)

lemma periodic_globals: "periodic_checkpoint rt cfg c e = (r, e1) \<Longrightarrow> globals e1 = globals e"
  by (auto simp: periodic_checkpoint_def save_checkpoint_def write_checkpoint_def globals_def
           split: if_splits)

section \<open>The loop function passes through the points\<close>

lemma dequeue_steps:
  assumes "queue e \<noteq> []" and "c < max_pages cfg" and "dequeue e = Inr d"
  shows "(step rt cfg fetch)\<^sup>*\<^sup>* (LoopTest c e) (Dequeued (c + 1) (hd (queue e)) d)"
proof -
  let ?url = "hd (queue e)"
  from assms(3) have m: "?url \<in> queued (popleft e)"
    and d: "d = (popleft e)\<lparr>queued := queued (popleft e) - {?url}\<rparr>"
    by (auto simp: dequeue_def Let_def split: if_splits)
  have "step rt cfg fetch (LoopTest c e) (Popped (c + 1) ?url (popleft e))"
    using assms(1,2) by (rule step.pop)
  moreover have "step rt cfg fetch (Popped (c + 1) ?url (popleft e)) (Dequeued (c + 1) ?url d)"
    unfolding d using m by (rule step.remove)
  ultimately show ?thesis by (meson converse_rtranclp_into_rtranclp rtranclp.rtrancl_refl)
qed

lemma record_steps:
  assumes "url \<notin> visited e" and "fetch url = Inr (links, md)"
  shows "(step rt cfg fetch)\<^sup>*\<^sup>* (Dequeued c url e) (Admitting c url links (record_page url md e))"
proof -
  let ?m = "e\<lparr>progress := progress e @ [url], visited := insert url (visited e)\<rparr>"
  have "step rt cfg fetch (Dequeued c url e) (Marked c url links md ?m)"
    using assms by (rule step.mark)
  moreover have "step rt cfg fetch (Marked c url links md ?m)
                   (Admitting c url links (?m\<lparr>graph := add_node url md (graph ?m)\<rparr>))"
    by (rule step.node)
  moreover have "?m\<lparr>graph := add_node url md (graph ?m)\<rparr> = record_page url md e"
    by (simp add: record_page_def)
  ultimately show ?thesis by (metis converse_rtranclp_into_rtranclp rtranclp.rtrancl_refl)
qed

lemma admit_link_steps:
  "(step rt cfg fetch)\<^sup>*\<^sup>* (Admitting c url (l # links) e)
     (Admitting c url links (admit_link url e l))"
proof -
  let ?g = "e\<lparr>graph := add_edge url l (graph e)\<rparr>"
  have s1: "step rt cfg fetch (Admitting c url (l # links) e) (Edged c url l links ?g)"
    by (rule step.edge)
  show ?thesis
  proof (cases "l \<notin> visited e \<and> l \<notin> queued e")
    case True
    then have "step rt cfg fetch (Edged c url l links ?g)
                 (Appended c url l links (?g\<lparr>queue := queue ?g @ [l]\<rparr>))"
      by (intro step.append) simp_all
    moreover have "step rt cfg fetch (Appended c url l links (?g\<lparr>queue := queue ?g @ [l]\<rparr>))
        (Admitting c url links
           (?g\<lparr>queue := queue ?g @ [l], queued := insert l (queued (?g\<lparr>queue := queue ?g @ [l]\<rparr>))\<rparr>))"
      by (rule step.add)
    moreover from True have "admit_link url e l
        = ?g\<lparr>queue := queue ?g @ [l], queued := insert l (queued (?g\<lparr>queue := queue ?g @ [l]\<rparr>))\<rparr>"
      by (simp add: admit_link_def Let_def)
    ultimately show ?thesis
      using s1 by (metis converse_rtranclp_into_rtranclp rtranclp.rtrancl_refl)
  next
    case False
    then have "step rt cfg fetch (Edged c url l links ?g) (Admitting c url links ?g)"
      by (intro step.known) auto
    moreover from False have "admit_link url e l = ?g"
      by (auto simp: admit_link_def Let_def)
    ultimately show ?thesis
      using s1 by (metis converse_rtranclp_into_rtranclp rtranclp.rtrancl_refl)
  qed
qed

lemma admit_links_steps:
  "(step rt cfg fetch)\<^sup>*\<^sup>* (Admitting c url links e) (Admitting c url [] (admit_links url links e))"
proof (induction links arbitrary: e)
  case Nil
  show ?case by (simp add: admit_links_def)
next
  case (Cons l links)
  have "admit_links url (l # links) e = admit_links url links (admit_link url e l)"
    by (simp add: admit_links_def)
  then show ?case
    using Cons.IH [of "admit_link url e l"] admit_link_steps [of rt cfg fetch c url l links e]
    by (simp add: rtranclp_trans)
qed

lemma crawl_point_steps:
  "(step rt cfg fetch)\<^sup>*\<^sup>* pt pt1 \<Longrightarrow> crawl_point rt cfg fetch pt \<Longrightarrow> crawl_point rt cfg fetch pt1"
  by (induction rule: rtranclp_induct) (auto intro: crawl_point.run)

text \<open>The loop function ends with the globals of a point that the steps reach;
  when it returns, that point is the loop test with the returned counter.\<close>

lemma scrape_loop_steps:
  "scrape_loop rt cfg fetch c e = (r, e1) \<Longrightarrow>
     \<exists>pt. (step rt cfg fetch)\<^sup>*\<^sup>* (LoopTest c e) pt \<and> globals (proc_of pt) = globals e1
          \<and> (\<forall>n. r = Inr n \<longrightarrow> pt = LoopTest n e1)"
proof (induction rt cfg fetch c e arbitrary: r e1 rule: scrape_loop.induct)
  case (1 rt cfg fetch counter e)
  note res = "1.prems"(1)
  show ?case
  proof (cases "queue e \<noteq> [] \<and> counter < max_pages cfg")
    case False
    with res have "r = Inr counter" "e1 = e"
      by (auto simp: scrape_loop.simps [of rt cfg fetch counter e])
    then show ?thesis by auto
  next
    case go: True
    let ?url = "hd (queue e)"
    show ?thesis
    proof (cases "dequeue e")
      case (Inl ex)
      with go res have "r = Inl ex" "e1 = popleft e"
        by (auto simp: scrape_loop.simps [of rt cfg fetch counter e] Let_def)
      moreover have "step rt cfg fetch (LoopTest counter e) (Popped (counter + 1) ?url (popleft e))"
        by (rule step.pop) (use go in auto)
      ultimately show ?thesis
        by (intro exI [of _ "Popped (counter + 1) ?url (popleft e)"]) auto
    next
      case (Inr d)
      have s1: "(step rt cfg fetch)\<^sup>*\<^sup>* (LoopTest counter e) (Dequeued (counter + 1) ?url d)"
        by (rule dequeue_steps) (use go Inr in auto)
      show ?thesis
      proof (cases "?url \<in> visited d")
        case True
        with go Inr res have rec: "scrape_loop rt cfg fetch counter d = (r, e1)"
          by (simp add: scrape_loop.simps [of rt cfg fetch counter e] Let_def)
        from "1.IH"(1) [OF go refl refl Inr True] rec
        obtain pt where pt: "(step rt cfg fetch)\<^sup>*\<^sup>* (LoopTest counter d) pt"
            "globals (proc_of pt) = globals e1" "\<forall>n. r = Inr n \<longrightarrow> pt = LoopTest n e1"
          by auto
        from True have "step rt cfg fetch (Dequeued (counter + 1) ?url d) (LoopTest (counter + 1 - 1) d)"
          by (rule step.skip)
        then have "step rt cfg fetch (Dequeued (counter + 1) ?url d) (LoopTest counter d)" by simp
        with s1 pt(1) have "(step rt cfg fetch)\<^sup>*\<^sup>* (LoopTest counter e) pt"
          by (meson rtranclp.rtrancl_into_rtrancl rtranclp_trans)
        with pt show ?thesis by blast
      next
        case new: False
        show ?thesis
        proof (cases "fetch ?url")
          case (Inl ex)
          with go Inr new res have "r = Inl ex" "e1 = d"
            by (auto simp: scrape_loop.simps [of rt cfg fetch counter e] Let_def)
          with s1 show ?thesis
            by (intro exI [of _ "Dequeued (counter + 1) ?url d"]) auto
        next
          case fr: (Inr lm)
          obtain links md where lm: "lm = (links, md)" by (cases lm)
          let ?e2 = "admit_links ?url links (record_page ?url md d)"
          have s2: "(step rt cfg fetch)\<^sup>*\<^sup>* (Dequeued (counter + 1) ?url d)
                      (Admitting (counter + 1) ?url links (record_page ?url md d))"
            by (rule record_steps) (use new fr lm in auto)
          have s3: "(step rt cfg fetch)\<^sup>*\<^sup>* (Admitting (counter + 1) ?url links (record_page ?url md d))
                      (Admitting (counter + 1) ?url [] ?e2)"
            by (rule admit_links_steps)
          from s1 s2 s3
          have s123: "(step rt cfg fetch)\<^sup>*\<^sup>* (LoopTest counter e) (Admitting (counter + 1) ?url [] ?e2)"
            by (meson rtranclp_trans)
          obtain raised e3 where pc: "periodic_checkpoint rt cfg (counter + 1) ?e2 = (raised, e3)"
            by (cases "periodic_checkpoint rt cfg (counter + 1) ?e2")
          from pc have g3: "globals e3 = globals ?e2" by (rule periodic_globals)
          show ?thesis
          proof (cases raised)
            case (Some ex)
            with go Inr new fr lm res pc have "r = Inl ex" "e1 = e3"
              by (auto simp: scrape_loop.simps [of rt cfg fetch counter e] Let_def)
            with s123 g3 show ?thesis
              by (intro exI [of _ "Admitting (counter + 1) ?url [] ?e2"]) auto
          next
            case None
            with go Inr new fr lm res pc have rec: "scrape_loop rt cfg fetch (counter + 1) e3 = (r, e1)"
              by (simp add: scrape_loop.simps [of rt cfg fetch counter e] Let_def)
            from fr lm have fr2: "fetch ?url = Inr (links, md)" by simp
            from pc None have s4: "step rt cfg fetch (Admitting (counter + 1) ?url [] ?e2)
                                     (LoopTest (counter + 1) e3)"
              by (auto intro: step.loop)
            with s123 have s1234: "(step rt cfg fetch)\<^sup>*\<^sup>* (LoopTest counter e) (LoopTest (counter + 1) e3)"
              by (meson rtranclp.rtrancl_into_rtrancl)
            from pc None have "fst (periodic_checkpoint rt cfg (counter + 1) ?e2) = None"
              "e3 = snd (periodic_checkpoint rt cfg (counter + 1) ?e2)"
              by simp_all
            from "1.IH"(2) [OF go refl refl Inr new fr2 refl refl refl refl this(1)] this(2) rec
            obtain pt where pt: "(step rt cfg fetch)\<^sup>*\<^sup>* (LoopTest (counter + 1) e3) pt"
                "globals (proc_of pt) = globals e1" "\<forall>n. r = Inr n \<longrightarrow> pt = LoopTest n e1"
              by auto
            from s1234 pt(1) have "(step rt cfg fetch)\<^sup>*\<^sup>* (LoopTest counter e) pt"
              by (meson rtranclp_trans)
            with pt show ?thesis by blast
          qed
        qed
      qed
    qed
  qed
qed

section \<open>URLs that parse\<close>

lemma set_tl_subset: "set (tl xs) \<subseteq> set xs"
  by (cases xs) auto

lemma set_after: "set (after c s) \<subseteq> set s"
proof -
  have "set (tl (dropWhile (\<lambda>x. x \<noteq> c) s)) \<subseteq> set (dropWhile (\<lambda>x. x \<noteq> c) s)"
    by (rule set_tl_subset)
  also have "\<dots> \<subseteq> set s"
    by (rule set_dropWhileD [THEN subsetI])
  finally show ?thesis by (simp add: after_def)
qed

lemma set_split_scheme: "set (snd (split_scheme d url)) \<subseteq> set url"
  using set_after [of "CHR '':''" url] by (simp add: split_scheme_def)

lemma netloc_part_subset:
  "set (takeWhile (\<lambda>c. \<not> netloc_delim c) (drop 2 (snd (split_scheme d u)))) \<subseteq> set u"
proof -
  have "set (takeWhile (\<lambda>c. \<not> netloc_delim c) (drop 2 (snd (split_scheme d u))))
          \<subseteq> set (drop 2 (snd (split_scheme d u)))"
    by (rule subsetI) (rule set_takeWhileD [THEN conjunct1])
  also have "\<dots> \<subseteq> set (snd (split_scheme d u))"
    by (rule set_drop_subset)
  also have "\<dots> \<subseteq> set u"
    by (rule set_split_scheme)
  finally show ?thesis .
qed

lemma cleaned_subset:
  "set (filter P (dropWhile Q url)) \<subseteq> set url"
proof -
  have "set (filter P (dropWhile Q url)) \<subseteq> set (dropWhile Q url)" by simp
  also have "\<dots> \<subseteq> set url" by (rule set_dropWhileD [THEN subsetI])
  finally show ?thesis .
qed

lemma netloc_ok_no_brackets: "CHR ''['' \<notin> set nl \<Longrightarrow> CHR '']'' \<notin> set nl \<Longrightarrow> netloc_ok rt nl"
  by (simp add: netloc_ok_def)

lemma if_None_Some: "((if c then None else Some r) = None) = c"
  by simp

text \<open>\<open>urlsplit\<close> and \<open>urlparse\<close> raise only on brackets in the network location.\<close>

lemma urlsplit_no_brackets:
  assumes "CHR ''['' \<notin> set url" and "CHR '']'' \<notin> set url"
  shows "urlsplit rt url d \<noteq> None"
proof -
  let ?u2 = "filter (\<lambda>c. code c \<noteq> 9 \<and> code c \<noteq> 13 \<and> code c \<noteq> 10)
               (dropWhile (\<lambda>c. code c \<le> 32) url)"
  let ?nl = "takeWhile (\<lambda>c. \<not> netloc_delim c) (drop 2 (snd (split_scheme d ?u2)))"
  have "set ?nl \<subseteq> set ?u2" by (rule netloc_part_subset)
  also have "\<dots> \<subseteq> set url" by (rule cleaned_subset)
  finally have "CHR ''['' \<notin> set ?nl" "CHR '']'' \<notin> set ?nl"
    using assms by blast+
  then have ok: "netloc_ok rt ?nl" by (rule netloc_ok_no_brackets)
  show ?thesis
    unfolding urlsplit_def Let_def if_None_Some
    using ok by (simp only: if_split simp_thms) blast
qed

lemma urlparse_no_brackets:
  assumes "CHR ''['' \<notin> set url" and "CHR '']'' \<notin> set url"
  shows "urlparse rt url \<noteq> None"
  using urlsplit_no_brackets [OF assms, of rt "[]"]
  by (simp add: urlparse_def urlparse_scheme_def split: option.splits)

lemma valid_url_parses: "is_valid_url rt cfg url \<Longrightarrow> urlparse rt url \<noteq> None"
  by (auto simp: is_valid_url_def split: option.splits)

section \<open>Concrete runs\<close>

lemmas run_defs = main_def after_save_def scrape_def start_process_def fresh_process_def
  load_checkpoint_def small_params_def base_url_def dequeue_def popleft_def record_page_def
  admit_links_def admit_link_def periodic_checkpoint_def save_checkpoint_def write_checkpoint_def
  analyze_queue_def globals_def urlparse_no_brackets Let_def add_node_def add_edge_def
  touch_node_def empty_graph_def

lemma chain_crawl_eval:
  "chain_crawl =
     (Inr 2,
      \<lparr>graph =
         \<lparr>nodes = [''https://d/'' \<mapsto> Map.empty, ''https://d/x'' \<mapsto> Map.empty,
                   ''https://d/xx'' \<mapsto> Map.empty],
          edges = {(''https://d/x'', ''https://d/xx''), (''https://d/'', ''https://d/x'')}\<rparr>,
       visited = {''https://d/x'', ''https://d/''},
       queue = [''https://d/xx''], queued = {''https://d/xx''},
       checkpoint_file =
         Some (\<lparr>nodes = [''https://d/'' \<mapsto> Map.empty, ''https://d/x'' \<mapsto> Map.empty,
                         ''https://d/xx'' \<mapsto> Map.empty],
                edges = {(''https://d/x'', ''https://d/xx''), (''https://d/'', ''https://d/x'')}\<rparr>,
               {''https://d/x'', ''https://d/''}, [''https://d/xx''], {''https://d/xx''}),
       output_file = None,
       progress = [''https://d/'', ''https://d/x'']\<rparr>)"
  unfolding chain_crawl_def
  by (simp add: run_defs chain_site_def scrape_loop.simps)

lemma chain_run_eval:
  "chain_run =
     (ExitNormal,
      \<lparr>graph =
         \<lparr>nodes = [''https://d/'' \<mapsto> Map.empty, ''https://d/x'' \<mapsto> Map.empty,
                   ''https://d/xx'' \<mapsto> Map.empty],
          edges = {(''https://d/x'', ''https://d/xx''), (''https://d/'', ''https://d/x'')}\<rparr>,
       visited = {''https://d/x'', ''https://d/''},
       queue = [''https://d/xx''], queued = {''https://d/xx''},
       checkpoint_file =
         Some (\<lparr>nodes = [''https://d/'' \<mapsto> Map.empty, ''https://d/x'' \<mapsto> Map.empty,
                         ''https://d/xx'' \<mapsto> Map.empty],
                edges = {(''https://d/x'', ''https://d/xx''), (''https://d/'', ''https://d/x'')}\<rparr>,
               {''https://d/x'', ''https://d/''}, [''https://d/xx''], {''https://d/xx''}),
       output_file =
         Some \<lparr>nodes = [''https://d/'' \<mapsto> Map.empty, ''https://d/x'' \<mapsto> Map.empty,
                        ''https://d/xx'' \<mapsto> Map.empty],
               edges = {(''https://d/x'', ''https://d/xx''), (''https://d/'', ''https://d/x'')}\<rparr>,
       progress = [''https://d/'', ''https://d/x'']\<rparr>)"
  unfolding chain_run_def
  by (simp add: run_defs chain_site_def scrape_loop.simps)

lemma chain_rerun_eval:
  "chain_rerun =
     (ExitNormal,
      \<lparr>graph =
         \<lparr>nodes = [''https://d/'' \<mapsto> Map.empty, ''https://d/x'' \<mapsto> Map.empty,
                   ''https://d/xx'' \<mapsto> Map.empty],
          edges = {(''https://d/x'', ''https://d/xx''), (''https://d/'', ''https://d/x'')}\<rparr>,
       visited = {''https://d/x'', ''https://d/''},
       queue = [''https://d/xx''], queued = {''https://d/xx''},
       checkpoint_file =
         Some (\<lparr>nodes = [''https://d/'' \<mapsto> Map.empty, ''https://d/x'' \<mapsto> Map.empty,
                         ''https://d/xx'' \<mapsto> Map.empty],
                edges = {(''https://d/x'', ''https://d/xx''), (''https://d/'', ''https://d/x'')}\<rparr>,
               {''https://d/x'', ''https://d/''}, [''https://d/xx''], {''https://d/xx''}),
       output_file =
         Some \<lparr>nodes = [''https://d/'' \<mapsto> Map.empty, ''https://d/x'' \<mapsto> Map.empty,
                        ''https://d/xx'' \<mapsto> Map.empty],
               edges = {(''https://d/x'', ''https://d/xx''), (''https://d/'', ''https://d/x'')}\<rparr>,
       progress = []\<rparr>)"
  unfolding chain_rerun_def chain_run_eval
  by (simp add: run_defs chain_site_def scrape_loop.simps)

lemma whole_run_eval:
  "whole_run =
     (ExitNormal,
      \<lparr>graph = \<lparr>nodes = [''https://d/'' \<mapsto> Map.empty, ''https://d/a'' \<mapsto> Map.empty],
                edges = {(''https://d/'', ''https://d/a'')}\<rparr>,
       visited = {''https://d/a'', ''https://d/''}, queue = [], queued = {},
       checkpoint_file =
         Some (\<lparr>nodes = [''https://d/'' \<mapsto> Map.empty, ''https://d/a'' \<mapsto> Map.empty],
                edges = {(''https://d/'', ''https://d/a'')}\<rparr>,
               {''https://d/a'', ''https://d/''}, [], {}),
       output_file =
         Some \<lparr>nodes = [''https://d/'' \<mapsto> Map.empty, ''https://d/a'' \<mapsto> Map.empty],
               edges = {(''https://d/'', ''https://d/a'')}\<rparr>,
       progress = [''https://d/'', ''https://d/a'']\<rparr>)"
  unfolding whole_run_def
  by (simp add: run_defs two_pages_def scrape_loop.simps)

lemma interrupted_run_eval:
  "interrupted_run =
     (ExitNormal,
      \<lparr>graph = \<lparr>nodes = Map.empty, edges = {}\<rparr>, visited = {}, queue = [], queued = {},
       checkpoint_file = Some (\<lparr>nodes = Map.empty, edges = {}\<rparr>, {}, [], {}),
       output_file = None, progress = []\<rparr>)"
  unfolding interrupted_run_def
  by (simp add: run_defs two_pages_def interrupt_at_def scrape_loop.simps)

lemma resumed_run_eval:
  "resumed_run =
     (ExitNormal,
      \<lparr>graph = \<lparr>nodes = Map.empty, edges = {}\<rparr>, visited = {}, queue = [], queued = {},
       checkpoint_file = Some (\<lparr>nodes = Map.empty, edges = {}\<rparr>, {}, [], {}),
       output_file = Some \<lparr>nodes = Map.empty, edges = {}\<rparr>, progress = []\<rparr>)"
  unfolding resumed_run_def interrupted_run_eval
  by (simp add: run_defs two_pages_def scrape_loop.simps)

text \<open>The end of a fresh crawl is a point of the crawl.\<close>

lemma scrape_fresh_point:
  assumes "scrape rt cfg fetch (fresh_process cfg) = (r, e1)"
  shows "\<exists>pt. crawl_point rt cfg fetch pt \<and> globals (proc_of pt) = globals e1
              \<and> (\<forall>n. r = Inr n \<longrightarrow> pt = LoopTest n e1)"
proof -
  from assms scrape_loop_steps [of rt cfg fetch _ "fresh_process cfg" r e1]
  obtain pt where
    "(step rt cfg fetch)\<^sup>*\<^sup>* (LoopTest (card (visited (fresh_process cfg))) (fresh_process cfg)) pt"
    "globals (proc_of pt) = globals e1" "\<forall>n. r = Inr n \<longrightarrow> pt = LoopTest n e1"
    unfolding scrape_def by blast
  then show ?thesis
    using crawl_point_steps [OF _ crawl_point.start] by blast
qed

lemma chain_crawl_point: "crawl_point plain_runtime small_params chain_site (LoopTest 2 (snd chain_crawl))"
proof -
  have "scrape plain_runtime small_params chain_site (fresh_process small_params)
          = (Inr 2, snd chain_crawl)"
    unfolding chain_crawl_def [symmetric] by (simp add: chain_crawl_eval)
  from scrape_fresh_point [OF this] show ?thesis by auto
qed

section \<open>An interrupt between the two updates of a pair\<close>

text \<open>The fresh run on the site of two pages, statement by statement, up to the
  point after \<^verbatim>\<open>queue.append(link)\<close> for the link of the base page.\<close>

lemma torn_point:
  "crawl_point plain_runtime small_params two_pages
     (Appended 1 ''https://d/'' ''https://d/a'' [] torn_state)"
proof -
  let ?R = plain_runtime and ?P = small_params and ?F = two_pages
  let ?b = "''https://d/''" and ?a = "''https://d/a''"
  let ?E0 = "fresh_process ?P"
  let ?E1 = "\<lparr>graph = empty_graph, visited = {}, queue = [], queued = {?b},
              checkpoint_file = None, output_file = None, progress = []\<rparr>"
  let ?E2 = "\<lparr>graph = empty_graph, visited = {}, queue = [], queued = {},
              checkpoint_file = None, output_file = None, progress = []\<rparr>"
  let ?E3 = "\<lparr>graph = empty_graph, visited = {?b}, queue = [], queued = {},
              checkpoint_file = None, output_file = None, progress = [?b]\<rparr>"
  let ?E4 = "\<lparr>graph = \<lparr>nodes = [?b \<mapsto> Map.empty], edges = {}\<rparr>, visited = {?b}, queue = [],
              queued = {}, checkpoint_file = None, output_file = None, progress = [?b]\<rparr>"
  let ?E5 = "\<lparr>graph = \<lparr>nodes = [?b \<mapsto> Map.empty, ?a \<mapsto> Map.empty], edges = {(?b, ?a)}\<rparr>,
              visited = {?b}, queue = [], queued = {}, checkpoint_file = None,
              output_file = None, progress = [?b]\<rparr>"
  have p0: "crawl_point ?R ?P ?F (LoopTest 0 ?E0)"
    using crawl_point.start [of ?R ?P ?F] by (simp add: fresh_process_def)
  have "step ?R ?P ?F (LoopTest 0 ?E0) (Popped 1 ?b ?E1)"
    using step.pop [where e = ?E0 and c = 0 and cfg = ?P and rt = ?R and fetch = ?F]
    by (simp add: fresh_process_def small_params_def base_url_def popleft_def)
  with p0 have p1: "crawl_point ?R ?P ?F (Popped 1 ?b ?E1)"
    by (rule crawl_point.run)
  have "step ?R ?P ?F (Popped 1 ?b ?E1) (Dequeued 1 ?b ?E2)"
    using step.remove [where e = ?E1 and url = ?b and c = 1 and cfg = ?P and rt = ?R and fetch = ?F]
    by simp
  with p1 have p2: "crawl_point ?R ?P ?F (Dequeued 1 ?b ?E2)"
    by (rule crawl_point.run)
  have "step ?R ?P ?F (Dequeued 1 ?b ?E2) (Marked 1 ?b [?a] Map.empty ?E3)"
    using step.mark [where e = ?E2 and url = ?b and c = 1 and links = "[?a]" and md = Map.empty
                       and cfg = ?P and rt = ?R and fetch = ?F]
    by (simp add: two_pages_def)
  with p2 have p3: "crawl_point ?R ?P ?F (Marked 1 ?b [?a] Map.empty ?E3)"
    by (rule crawl_point.run)
  have "step ?R ?P ?F (Marked 1 ?b [?a] Map.empty ?E3) (Admitting 1 ?b [?a] ?E4)"
    using step.node [where e = ?E3 and url = ?b and c = 1 and links = "[?a]" and md = Map.empty
                       and cfg = ?P and rt = ?R and fetch = ?F]
    by (simp add: add_node_def empty_graph_def)
  with p3 have p4: "crawl_point ?R ?P ?F (Admitting 1 ?b [?a] ?E4)"
    by (rule crawl_point.run)
  have "step ?R ?P ?F (Admitting 1 ?b [?a] ?E4) (Edged 1 ?b ?a [] ?E5)"
    using step.edge [where e = ?E4 and url = ?b and c = 1 and l = ?a and links = "[]"
                       and cfg = ?P and rt = ?R and fetch = ?F]
    by (simp add: add_edge_def touch_node_def fun_upd_twist)
  with p4 have p5: "crawl_point ?R ?P ?F (Edged 1 ?b ?a [] ?E5)"
    by (rule crawl_point.run)
  have "step ?R ?P ?F (Edged 1 ?b ?a [] ?E5) (Appended 1 ?b ?a [] torn_state)"
    using step.append [where e = ?E5 and url = ?b and c = 1 and l = ?a and links = "[]"
                         and cfg = ?P and rt = ?R and fetch = ?F]
    by (simp add: torn_state_def)
  with p5 show ?thesis
    by (rule crawl_point.run)
qed

lemma torn_run_eval: "fst torn_run = ExitRaised (KeyError ''https://d/a'')"
  unfolding torn_run_def torn_state_def
  by (simp add: run_defs two_pages_def scrape_loop.simps)

text \<open>
  C1 fails in the code. On the site of two pages, the fresh run reaches the point
  between \<^verbatim>\<open>queue.append(link)\<close> and \<^verbatim>\<open>queued.add(link)\<close> for the link of the base
  page: the queue holds the link and \<open>queued\<close> is empty. A \<^verbatim>\<open>KeyboardInterrupt\<close> that
  arrives there makes the handler pickle these globals. The run that loads this
  checkpoint starts its loop with a queue of one URL and an empty set \<open>queued\<close>, and
  its first \<^verbatim>\<open>queued.remove(url)\<close> raises \<^verbatim>\<open>KeyError\<close>, which ends the run.
\<close>

theorem interrupt_between_paired_updates:
  "crawl_point plain_runtime small_params two_pages
     (Appended 1 ''https://d/'' ''https://d/a'' [] torn_state)
   \<and> queue torn_state = [''https://d/a''] \<and> queued torn_state = {}
   \<and> crawl_point plain_runtime small_params two_pages
       (LoopTest 1 (load_checkpoint (globals torn_state)))
   \<and> queue (load_checkpoint (globals torn_state)) = [''https://d/a'']
   \<and> queued (load_checkpoint (globals torn_state)) = {}
   \<and> torn_run = main plain_runtime small_params two_pages (Some (globals torn_state))
   \<and> fst torn_run = ExitRaised (KeyError ''https://d/a'')"
proof -
  have "crawl_point plain_runtime small_params two_pages
          (LoopTest (card (visited (load_checkpoint (globals torn_state))))
             (load_checkpoint (globals torn_state)))"
    using crawl_point.interrupted [OF torn_point] by simp
  moreover have "card (visited (load_checkpoint (globals torn_state))) = 1"
    by (simp add: load_checkpoint_def globals_def torn_state_def)
  ultimately have "crawl_point plain_runtime small_params two_pages
       (LoopTest 1 (load_checkpoint (globals torn_state)))"
    by simp
  moreover have "queue (load_checkpoint (globals torn_state)) = [''https://d/a'']"
    "queued (load_checkpoint (globals torn_state)) = {}"
    "queue torn_state = [''https://d/a'']" "queued torn_state = {}"
    by (simp_all add: load_checkpoint_def globals_def torn_state_def)
  ultimately show ?thesis
    using torn_point torn_run_eval torn_run_def by simp
qed

section \<open>The nodes of the graph\<close>

lemma known_fresh: "graph_inv (LoopTest c (fresh_process cfg))"
  by (simp add: graph_inv_def nodes_known_def fresh_process_def empty_graph_def)

lemma known_load: "checkpoint_known cp \<Longrightarrow> graph_inv (LoopTest c (load_checkpoint cp))"
  by (auto simp: graph_inv_def checkpoint_known_def load_checkpoint_def split: prod.splits)

lemma known_add_node: "nodes_known g v \<Longrightarrow> nodes_known (add_node url md g) (insert url v)"
  by (auto simp: nodes_known_def add_node_def split: if_splits)

lemma touch_node_Some:
  "touch_node n ns m = Some md \<Longrightarrow> ns m = Some md \<or> (m = n \<and> md = Map.empty)"
  by (auto simp: touch_node_def split: option.splits if_splits)

lemma dom_touch_node: "dom (touch_node n ns) = insert n (dom ns)"
  by (auto simp: touch_node_def split: option.splits if_splits)

lemma known_add_edge: "nodes_known g v \<Longrightarrow> url \<in> v \<Longrightarrow> nodes_known (add_edge url l g) v"
  unfolding nodes_known_def add_edge_def
  by (auto simp: dom_touch_node dest!: touch_node_Some)

lemma known_step: "step rt cfg fetch pt pt1 \<Longrightarrow> graph_inv pt \<Longrightarrow> graph_inv pt1"
proof (induction rule: step.induct)
  case (pop e c)
  then show ?case by (simp add: graph_inv_def popleft_def)
next
  case (remove url e c)
  then show ?case by (simp add: graph_inv_def)
next
  case (skip url e c)
  then show ?case by (simp add: graph_inv_def)
next
  case (mark url e links md c)
  then show ?case
    unfolding graph_inv_def nodes_known_def by auto
next
  case (node c url links md e)
  then have "nodes_known (add_node url md (graph e)) (insert url (visited e))"
    by (simp add: graph_inv_def known_add_node)
  moreover from node have "insert url (visited e) = visited e"
    by (auto simp: graph_inv_def)
  ultimately show ?case
    using node by (simp add: graph_inv_def)
next
  case (edge c url l links e)
  then show ?case
    by (simp add: graph_inv_def known_add_edge)
next
  case (known l e c url links)
  then show ?case by (simp add: graph_inv_def)
next
  case (append l e c url links)
  then show ?case by (simp add: graph_inv_def)
next
  case (add c url l links e)
  then show ?case by (simp add: graph_inv_def)
next
  case (loop c e e1 url)
  then show ?case
    by (auto simp: graph_inv_def periodic_checkpoint_def save_checkpoint_def write_checkpoint_def
             globals_def checkpoint_known_def split: if_splits)
qed

lemma known_crawl_point: "crawl_point rt cfg fetch pt \<Longrightarrow> graph_inv pt"
proof (induction rule: crawl_point.induct)
  case start
  show ?case by (rule known_fresh)
next
  case (run pt pt1)
  then show ?case by (blast intro: known_step)
next
  case (resume pt cp)
  then have "checkpoint_known cp" by (simp add: graph_inv_def)
  then show ?case by (rule known_load)
next
  case (interrupted pt cp)
  then have "checkpoint_known cp" by (simp add: graph_inv_def checkpoint_known_def globals_def)
  then show ?case by (rule known_load)
next
  case (seeding cp)
  then have "checkpoint_known cp"
    by (simp add: checkpoint_known_def nodes_known_def empty_graph_def)
  then show ?case by (rule known_load)
qed

text \<open>
  C5, as stated, fails: after the fresh run on the chain site with a budget of two
  pages, the graph has a node for \<^verbatim>\<open>https://d/xx\<close>, which was only discovered as a
  link target (\<open>add_edge\<close> created it) and is not in the visited set.
\<close>

theorem node_of_unvisited_link_target_counterexample:
  "''https://d/xx'' \<in> dom (nodes (graph (snd chain_run)))
   \<and> ''https://d/xx'' \<notin> visited (snd chain_run)"
  by (simp add: chain_run_eval)

text \<open>
  C5, amended: a node is created for a URL when the URL is dequeued and processed,
  and also, without attributes, when \<open>add_edge\<close> meets it as an end point that the
  graph does not have yet. At every point of the crawl every node of the graph is
  in the visited set or is the target of an edge, every edge starts at a visited
  page, and every node that carries attributes is in the visited set.
\<close>

theorem nodes_visited_or_link_targets:
  "crawl_point rt cfg fetch pt \<Longrightarrow>
     dom (nodes (graph (proc_of pt))) \<subseteq> visited (proc_of pt) \<union> snd ` edges (graph (proc_of pt))
     \<and> fst ` edges (graph (proc_of pt)) \<subseteq> visited (proc_of pt)
     \<and> (\<forall>n md. nodes (graph (proc_of pt)) n = Some md \<longrightarrow> md \<noteq> Map.empty
            \<longrightarrow> n \<in> visited (proc_of pt))"
  by (drule known_crawl_point) (simp add: graph_inv_def nodes_known_def)

theorem nodes_visited_or_link_targets_witness:
  "crawl_point plain_runtime small_params chain_site (LoopTest 2 (snd chain_crawl))
   \<and> dom (nodes (graph (snd chain_crawl)))
       = {''https://d/'', ''https://d/x'', ''https://d/xx''}
   \<and> dom (nodes (graph (snd chain_crawl)))
       \<subseteq> visited (snd chain_crawl) \<union> snd ` edges (graph (snd chain_crawl))
   \<and> fst ` edges (graph (snd chain_crawl)) \<subseteq> visited (snd chain_crawl)"
proof -
  have "dom (nodes (graph (snd chain_crawl))) = {''https://d/'', ''https://d/x'', ''https://d/xx''}"
    by (auto simp: chain_crawl_eval split: if_splits)
  with nodes_visited_or_link_targets [OF chain_crawl_point] chain_crawl_point
  show ?thesis by simp
qed

section \<open>One iteration of the loop, and the order of the visits\<close>

lemma fresh_disjoint: "set (fresh seen xs) \<inter> seen = {}"
  by (induction xs arbitrary: seen) auto

lemma fresh_subset: "set (fresh seen xs) \<subseteq> set xs"
  by (induction xs arbitrary: seen) auto

lemma fresh_distinct: "distinct (fresh seen xs)"
proof (induction xs arbitrary: seen)
  case Nil
  show ?case by simp
next
  case (Cons x xs)
  have "x \<notin> set (fresh (insert x seen) xs)"
    using fresh_disjoint [of "insert x seen" xs] by auto
  with Cons show ?case by simp
qed

lemma fresh_append:
  "fresh seen (xs @ ys) = fresh seen xs @ fresh (seen \<union> set (fresh seen xs)) ys"
  by (induction xs arbitrary: seen) (auto simp: Un_commute insert_commute)

lemma admit_links_effect:
  "queued e = set (queue e) \<Longrightarrow>
     queue (admit_links url links e) = queue e @ fresh (visited e \<union> set (queue e)) links
     \<and> queued (admit_links url links e) = set (queue (admit_links url links e))
     \<and> visited (admit_links url links e) = visited e
     \<and> progress (admit_links url links e) = progress e
     \<and> checkpoint_file (admit_links url links e) = checkpoint_file e
     \<and> output_file (admit_links url links e) = output_file e"
proof (induction links arbitrary: e)
  case Nil
  then show ?case by (simp add: admit_links_def)
next
  case (Cons l links)
  let ?e1 = "admit_link url e l"
  have step: "admit_links url (l # links) e = admit_links url links ?e1"
    by (simp add: admit_links_def)
  show ?case
  proof (cases "l \<in> visited e \<union> set (queue e)")
    case True
    with Cons.prems have e1: "queue ?e1 = queue e" "queued ?e1 = queued e" "visited ?e1 = visited e"
      "progress ?e1 = progress e" "checkpoint_file ?e1 = checkpoint_file e"
      "output_file ?e1 = output_file e"
      by (auto simp: admit_link_def Let_def)
    with Cons.prems have "queued ?e1 = set (queue ?e1)" by simp
    from Cons.IH [OF this] True e1 show ?thesis
      unfolding step by simp
  next
    case False
    with Cons.prems have e1: "queue ?e1 = queue e @ [l]" "queued ?e1 = insert l (queued e)"
      "visited ?e1 = visited e" "progress ?e1 = progress e"
      "checkpoint_file ?e1 = checkpoint_file e" "output_file ?e1 = output_file e"
      by (auto simp: admit_link_def Let_def)
    with Cons.prems have "queued ?e1 = set (queue ?e1)" by simp
    from Cons.IH [OF this] False e1 show ?thesis
      unfolding step by (simp add: Un_commute insert_commute)
  qed
qed

lemma admit_links_graph:
  "graph (admit_links url links e) = foldl (\<lambda>g l. add_edge url l g) (graph e) links"
  by (induction links arbitrary: e) (auto simp: admit_links_def admit_link_def Let_def)

lemma periodic_checkpoint_ok:
  "checkpoint_interval cfg \<noteq> 0 \<Longrightarrow> \<forall>l \<in> set (queue e). urlparse rt l \<noteq> None \<Longrightarrow>
     \<exists>e3. periodic_checkpoint rt cfg n e = (None, e3) \<and> queue e3 = queue e
          \<and> queued e3 = queued e \<and> visited e3 = visited e \<and> progress e3 = progress e
          \<and> graph e3 = graph e \<and> output_file e3 = output_file e"
  by (simp add: periodic_checkpoint_def save_checkpoint_def write_checkpoint_def
        analyze_queue_def list_all_iff)

lemma scrape_loop_iteration:
  assumes q: "queue e = u # q" and c: "c < max_pages cfg"
    and m: "queued e = set (queue e)" and d: "distinct (queue e)"
    and v: "u \<notin> visited e" and f: "fetch u = Inr (links, md)"
    and i: "checkpoint_interval cfg \<noteq> 0"
    and p: "\<forall>l \<in> set q \<union> set links. urlparse rt l \<noteq> None"
  shows "\<exists>e3. scrape_loop rt cfg fetch c e = scrape_loop rt cfg fetch (c + 1) e3
           \<and> queue e3 = q @ fresh (visited e \<union> set (queue e)) links
           \<and> queued e3 = set (queue e3)
           \<and> visited e3 = insert u (visited e)
           \<and> progress e3 = progress e @ [u]
           \<and> graph e3 = foldl (\<lambda>g l. add_edge u l g) (add_node u md (graph e)) links"
proof -
  let ?d = "e\<lparr>queue := q, queued := queued e - {u}\<rparr>"
  let ?e2 = "admit_links u links (record_page u md ?d)"
  have deq: "dequeue e = Inr ?d"
    using q m by (simp add: dequeue_def popleft_def Let_def)
  have md: "queued (record_page u md ?d) = set (queue (record_page u md ?d))"
    using q m d by (auto simp: record_page_def)
  note eff = admit_links_effect [OF md, of u links]
  have "set (queue ?e2) \<subseteq> set q \<union> set links"
    using eff fresh_subset [of _ links] by (auto simp: record_page_def)
  with p have "\<forall>l \<in> set (queue ?e2). urlparse rt l \<noteq> None" by blast
  from periodic_checkpoint_ok [OF i this, of "c + 1"]
  obtain e3 where pc: "periodic_checkpoint rt cfg (c + 1) ?e2 = (None, e3)"
    and e3: "queue e3 = queue ?e2" "queued e3 = queued ?e2" "visited e3 = visited ?e2"
      "progress e3 = progress ?e2" "graph e3 = graph ?e2"
    by blast
  have "scrape_loop rt cfg fetch c e = scrape_loop rt cfg fetch (c + 1) e3"
    using q c deq v f pc by (simp add: scrape_loop.simps [of rt cfg fetch c e] Let_def)
  moreover have "insert u (visited e \<union> set q) = visited e \<union> set (queue e)"
    using q by auto
  moreover have "graph ?e2 = foldl (\<lambda>g l. add_edge u l g) (add_node u md (graph e)) links"
    by (simp add: admit_links_graph record_page_def)
  ultimately show ?thesis
    using e3 eff by (intro exI [of _ e3]) (simp add: record_page_def)
qed

lemma queue_order_0: "queue_order succs seen q 0 = []"
  by (cases q) auto

lemma scrape_loop_queue_order:
  assumes f: "\<And>u. fetch u = Inr (succs u, meta u)" and i: "checkpoint_interval cfg \<noteq> 0"
    and p: "\<And>u l. l \<in> set (succs u) \<Longrightarrow> urlparse rt l \<noteq> None"
  shows "k = max_pages cfg - c \<Longrightarrow> queued e = set (queue e) \<Longrightarrow> distinct (queue e) \<Longrightarrow>
         visited e \<inter> set (queue e) = {} \<Longrightarrow>
         \<forall>l \<in> set (tl (queue e)). urlparse rt l \<noteq> None \<Longrightarrow>
         progress (snd (scrape_loop rt cfg fetch c e))
           = progress e @ queue_order succs (visited e \<union> set (queue e)) (queue e) k
         \<and> visited (snd (scrape_loop rt cfg fetch c e))
           = visited e \<union> set (queue_order succs (visited e \<union> set (queue e)) (queue e) k)
         \<and> (\<exists>n. fst (scrape_loop rt cfg fetch c e) = Inr n)"
proof (induction k arbitrary: c e)
  case 0
  then have "\<not> c < max_pages cfg" by simp
  then show ?case
    by (simp add: scrape_loop.simps [of rt cfg fetch c e] queue_order_0)
next
  case (Suc k)
  then have c: "c < max_pages cfg" and k: "k = max_pages cfg - (c + 1)" by auto
  show ?case
  proof (cases "queue e")
    case Nil
    then show ?thesis
      by (simp add: scrape_loop.simps [of rt cfg fetch c e])
  next
    case (Cons u q)
    let ?seen = "visited e \<union> set (queue e)"
    let ?new = "fresh ?seen (succs u)"
    from Cons Suc.prems have v: "u \<notin> visited e" by auto
    from Cons Suc.prems(5) p have pq: "\<forall>l \<in> set q \<union> set (succs u). urlparse rt l \<noteq> None"
      by auto
    from scrape_loop_iteration
           [where rt = rt and fetch = fetch and links = "succs u" and md = "meta u",
            OF Cons c Suc.prems(2) Suc.prems(3) v f [of u] i pq]
    obtain e3 where all: "scrape_loop rt cfg fetch c e = scrape_loop rt cfg fetch (c + 1) e3
           \<and> queue e3 = q @ ?new \<and> queued e3 = set (queue e3)
           \<and> visited e3 = insert u (visited e) \<and> progress e3 = progress e @ [u]
           \<and> graph e3 = foldl (\<lambda>g l. add_edge u l g) (add_node u (meta u) (graph e)) (succs u)"
      by (rule exE)
    note e3 = all [THEN conjunct1] all [THEN conjunct2, THEN conjunct1]
      all [THEN conjunct2, THEN conjunct2, THEN conjunct1]
      all [THEN conjunct2, THEN conjunct2, THEN conjunct2, THEN conjunct1]
      all [THEN conjunct2, THEN conjunct2, THEN conjunct2, THEN conjunct2, THEN conjunct1]
    have dis: "set ?new \<inter> ?seen = {}" by (rule fresh_disjoint)
    have "distinct (queue e3)"
      using e3(2) Cons Suc.prems(3) dis fresh_distinct [of ?seen "succs u"] by auto
    moreover have "visited e3 \<inter> set (queue e3) = {}"
      using e3(2,4) Cons Suc.prems(3,4) dis by auto
    moreover have pq3: "\<forall>l \<in> set (tl (queue e3)). urlparse rt l \<noteq> None"
      using e3(2) pq fresh_subset [of ?seen "succs u"] set_tl_subset [of "queue e3"] by auto
    moreover have seen3: "visited e3 \<union> set (queue e3) = ?seen \<union> set ?new"
      using e3(2,4) Cons by auto
    ultimately have IH: "progress (snd (scrape_loop rt cfg fetch (c + 1) e3))
           = progress e3 @ queue_order succs (?seen \<union> set ?new) (q @ ?new) k
         \<and> visited (snd (scrape_loop rt cfg fetch (c + 1) e3))
           = visited e3 \<union> set (queue_order succs (?seen \<union> set ?new) (q @ ?new) k)
         \<and> (\<exists>n. fst (scrape_loop rt cfg fetch (c + 1) e3) = Inr n)"
      using Suc.IH [OF k e3(3)] e3(2) pq3 by simp
    show ?thesis
      using IH e3(1,4,5) Cons by simp
  qed
qed

lemma queue_order_level:
  "queue_order succs seen (cur @ acc) n
     = take n cur @ (if n \<le> length cur then []
                     else queue_order succs (seen \<union> set (next_level succs seen cur))
                            (acc @ next_level succs seen cur) (n - length cur))"
proof (induction cur arbitrary: seen acc n)
  case Nil
  show ?case by (simp add: next_level_def queue_order_0)
next
  case (Cons u cur)
  show ?case
  proof (cases n)
    case 0
    then show ?thesis by simp
  next
    case (Suc m)
    let ?new = "fresh seen (succs u)"
    have nl: "next_level succs seen (u # cur) = ?new @ next_level succs (seen \<union> set ?new) cur"
      by (simp add: next_level_def fresh_append)
    show ?thesis
      using Cons.IH [of "seen \<union> set ?new" "acc @ ?new" m] Suc
      by (simp add: nl Un_assoc)
  qed
qed

lemma queue_order_bfs_levels: "queue_order succs seen level n = bfs_levels succs seen level n"
proof (induction succs seen level n rule: bfs_levels.induct)
  case (1 succs seen level n)
  show ?case
  proof (cases "level = [] \<or> n = 0")
    case True
    then show ?thesis
      by (auto simp: bfs_levels.simps [of succs seen level n] queue_order_0)
  next
    case False
    have "queue_order succs seen level n
            = take n level @ (if n \<le> length level then []
                else queue_order succs (seen \<union> set (next_level succs seen level))
                       (next_level succs seen level) (n - length level))"
      using queue_order_level [of succs seen level "[]" n] by simp
    also have "\<dots> = take n level @ queue_order succs (seen \<union> set (next_level succs seen level))
                       (next_level succs seen level) (n - length level)"
      by (simp add: queue_order_0)
    finally show ?thesis
      using "1.IH" [OF False] False by (simp add: bfs_levels.simps [of succs seen level n])
  qed
qed

text \<open>
  C2: the fetcher is a fixed function from URLs to admissible links (\<open>succs url\<close>,
  in the order in which the loop iterates them) and metadata. In a fresh run the
  URLs enter the visited set, and are reported, in breadth-first order from the
  base URL: level by level, each level in the order in which its pages were first
  discovered, up to the page budget. The checkpoint interval must not be 0 (the
  modulus would raise after the first page).
\<close>

theorem visit_order_is_breadth_first:
  assumes "checkpoint_interval cfg \<noteq> 0"
    and "\<forall>url. \<forall>l \<in> set (succs url). is_valid_url rt cfg l"
  shows "progress (snd (main rt cfg (\<lambda>url. Inr (succs url, meta url)) None))
           = bfs_order succs (base_url cfg) (max_pages cfg)
         \<and> visited (snd (main rt cfg (\<lambda>url. Inr (succs url, meta url)) None))
           = set (bfs_order succs (base_url cfg) (max_pages cfg))
         \<and> fst (main rt cfg (\<lambda>url. Inr (succs url, meta url)) None) = ExitNormal"
proof -
  let ?fetch = "\<lambda>url. Inr (succs url, meta url)"
  let ?e = "fresh_process cfg"
  have p: "\<And>u l. l \<in> set (succs u) \<Longrightarrow> urlparse rt l \<noteq> None"
    using assms(2) valid_url_parses by blast
  have "progress (snd (scrape_loop rt cfg ?fetch 0 ?e))
           = progress ?e @ queue_order succs (visited ?e \<union> set (queue ?e)) (queue ?e) (max_pages cfg)
         \<and> visited (snd (scrape_loop rt cfg ?fetch 0 ?e))
           = visited ?e \<union> set (queue_order succs (visited ?e \<union> set (queue ?e)) (queue ?e) (max_pages cfg))
         \<and> (\<exists>n. fst (scrape_loop rt cfg ?fetch 0 ?e) = Inr n)"
    by (rule scrape_loop_queue_order [OF _ assms(1) p]) (simp_all add: fresh_process_def)
  then obtain n e1 where run: "scrape_loop rt cfg ?fetch 0 ?e = (Inr n, e1)"
    and "progress e1 = bfs_order succs (base_url cfg) (max_pages cfg)"
    and "visited e1 = set (bfs_order succs (base_url cfg) (max_pages cfg))"
    by (cases "scrape_loop rt cfg ?fetch 0 ?e")
       (auto simp: fresh_process_def bfs_order_def queue_order_bfs_levels)
  moreover from run have "main rt cfg ?fetch None = (ExitNormal, e1\<lparr>output_file := Some (graph e1)\<rparr>)"
    by (simp add: main_def scrape_def start_process_def fresh_process_def)
  ultimately show ?thesis by simp
qed

lemma diamond_links_valid:
  "\<forall>url. \<forall>l \<in> set (diamond_links url). is_valid_url plain_runtime roomy_params l"
proof -
  have "is_valid_url plain_runtime roomy_params ''https://d/''"
    "is_valid_url plain_runtime roomy_params ''https://d/a''"
    "is_valid_url plain_runtime roomy_params ''https://d/b''"
    "is_valid_url plain_runtime roomy_params ''https://d/c''"
    "is_valid_url plain_runtime roomy_params ''https://d/e''"
    by code_simp+
  then show ?thesis
    by (auto simp: diamond_links_def)
qed

theorem visit_order_is_breadth_first_witness:
  "checkpoint_interval roomy_params \<noteq> 0
   \<and> progress (snd (main plain_runtime roomy_params
                      (\<lambda>url. Inr (diamond_links url, Map.empty)) None))
       = [''https://d/'', ''https://d/a'', ''https://d/b'', ''https://d/c'']
   \<and> visited (snd (main plain_runtime roomy_params
                      (\<lambda>url. Inr (diamond_links url, Map.empty)) None))
       = {''https://d/'', ''https://d/a'', ''https://d/b'', ''https://d/c''}"
proof -
  have i: "checkpoint_interval roomy_params \<noteq> 0"
    by (simp add: roomy_params_def)
  have "bfs_order diamond_links (base_url roomy_params) (max_pages roomy_params)
          = [''https://d/'', ''https://d/a'', ''https://d/b'', ''https://d/c'']"
    by (simp add: bfs_order_def bfs_levels.simps next_level_def diamond_links_def
          roomy_params_def base_url_def)
  with visit_order_is_breadth_first [OF i diamond_links_valid, of "\<lambda>url. Map.empty"] i
  show ?thesis by auto
qed

section \<open>A failed fetch\<close>

lemma fetch_links_failure:
  "fetch_fails http url \<Longrightarrow> fetch_links rt cfg http url = Inr ([], Map.empty)"
  by (auto simp: fetch_fails_def fetch_links_def fetch_page_metadata_def
           split: response.splits option.splits)

text \<open>The loop keeps what it has recorded about visited pages.\<close>

lemma keeps_refl: "keeps e e"
  by (simp add: keeps_def)

lemma keeps_trans: "keeps e e1 \<Longrightarrow> keeps e1 e2 \<Longrightarrow> keeps e e2"
  unfolding keeps_def by (meson prefix_order.trans subsetD subsetI)

lemma keeps_popleft: "keeps e (popleft e)"
  by (simp add: keeps_def popleft_def)

lemma keeps_dequeue: "dequeue e = Inr d \<Longrightarrow> keeps e d"
  by (auto simp: keeps_def dequeue_def popleft_def Let_def split: if_splits)

lemma keeps_periodic: "periodic_checkpoint rt cfg c e = (r, e1) \<Longrightarrow> keeps e e1"
  by (auto simp: keeps_def periodic_checkpoint_def save_checkpoint_def write_checkpoint_def
           split: if_splits)

lemma admit_links_visited: "visited (admit_links url links e) = visited e"
  by (induction links arbitrary: e) (auto simp: admit_links_def admit_link_def Let_def)

lemma admit_links_progress: "progress (admit_links url links e) = progress e"
  by (induction links arbitrary: e) (auto simp: admit_links_def admit_link_def Let_def)

lemma add_edge_nodes: "nodes g u = Some a \<Longrightarrow> nodes (add_edge url l g) u = Some a"
  by (auto simp: add_edge_def touch_node_def split: option.splits)

lemma add_edges_nodes:
  "nodes g u = Some a \<Longrightarrow> nodes (foldl (\<lambda>g l. add_edge url l g) g links) u = Some a"
proof (induction links arbitrary: g)
  case Nil
  then show ?case by simp
next
  case (Cons l links)
  from Cons.prems have "nodes (add_edge url l g) u = Some a" by (rule add_edge_nodes)
  then show ?case using Cons.IH by simp
qed

lemma add_edge_edges: "edges (add_edge url l g) = insert (url, l) (edges g)"
  by (simp add: add_edge_def)

lemma add_edges_edges:
  "edges (foldl (\<lambda>g l. add_edge url l g) g links) = edges g \<union> {(url, l) | l. l \<in> set links}"
  by (induction links arbitrary: g) (auto simp: add_edge_edges)

lemma keeps_page: "url \<notin> visited d \<Longrightarrow> keeps d (admit_links url links (record_page url md d))"
  unfolding keeps_def admit_links_visited admit_links_progress admit_links_graph add_edges_edges
  by (auto simp: record_page_def add_node_def intro!: add_edges_nodes)

lemma scrape_loop_keeps: "scrape_loop rt cfg fetch c e = (r, e1) \<Longrightarrow> keeps e e1"
proof (induction rt cfg fetch c e arbitrary: r e1 rule: scrape_loop.induct)
  case (1 rt cfg fetch counter e)
  note res = "1.prems"
  show ?case
  proof (cases "queue e \<noteq> [] \<and> counter < max_pages cfg")
    case False
    with res have "e1 = e"
      by (auto simp: scrape_loop.simps [of rt cfg fetch counter e])
    then show ?thesis by (simp add: keeps_refl)
  next
    case go: True
    let ?url = "hd (queue e)"
    show ?thesis
    proof (cases "dequeue e")
      case (Inl ex)
      with go res have "e1 = popleft e"
        by (auto simp: scrape_loop.simps [of rt cfg fetch counter e] Let_def)
      then show ?thesis by (simp add: keeps_popleft)
    next
      case (Inr d)
      then have kd: "keeps e d" by (rule keeps_dequeue)
      show ?thesis
      proof (cases "?url \<in> visited d")
        case True
        with go Inr res have rec: "scrape_loop rt cfg fetch counter d = (r, e1)"
          by (simp add: scrape_loop.simps [of rt cfg fetch counter e] Let_def)
        from "1.IH"(1) [OF go refl refl Inr True] rec have "keeps d e1" by simp
        with kd show ?thesis by (rule keeps_trans)
      next
        case new: False
        show ?thesis
        proof (cases "fetch ?url")
          case (Inl ex)
          with go Inr new res have "e1 = d"
            by (auto simp: scrape_loop.simps [of rt cfg fetch counter e] Let_def)
          with kd show ?thesis by simp
        next
          case fr: (Inr lm)
          obtain links md where lm: "lm = (links, md)" by (cases lm)
          let ?e2 = "admit_links ?url links (record_page ?url md d)"
          from new have "keeps d ?e2" by (rule keeps_page)
          with kd have k2: "keeps e ?e2" by (rule keeps_trans)
          obtain raised e3 where pc: "periodic_checkpoint rt cfg (counter + 1) ?e2 = (raised, e3)"
            by (cases "periodic_checkpoint rt cfg (counter + 1) ?e2")
          from pc have "keeps ?e2 e3" by (rule keeps_periodic)
          with k2 have k3: "keeps e e3" by (rule keeps_trans)
          show ?thesis
          proof (cases raised)
            case (Some ex)
            with go Inr new fr lm res pc have "e1 = e3"
              by (auto simp: scrape_loop.simps [of rt cfg fetch counter e] Let_def)
            with k3 show ?thesis by simp
          next
            case None
            with go Inr new fr lm res pc have rec: "scrape_loop rt cfg fetch (counter + 1) e3 = (r, e1)"
              by (simp add: scrape_loop.simps [of rt cfg fetch counter e] Let_def)
            from fr lm have fr2: "fetch ?url = Inr (links, md)" by simp
            from pc None have "fst (periodic_checkpoint rt cfg (counter + 1) ?e2) = None"
              "e3 = snd (periodic_checkpoint rt cfg (counter + 1) ?e2)"
              by simp_all
            from "1.IH"(2) [OF go refl refl Inr new fr2 refl refl refl refl this(1)] this(2) rec
            have "keeps e3 e1" by simp
            with k3 show ?thesis by (rule keeps_trans)
          qed
        qed
      qed
    qed
  qed
qed

lemma scrape_loop_stop:
  "\<not> (queue e \<noteq> [] \<and> c < max_pages cfg) \<Longrightarrow> scrape_loop rt cfg fetch c e = (Inr c, e)"
  by (subst scrape_loop.simps) (simp only: if_False)

text \<open>A page that the loop processes stays processed: whatever the rest of the
  loop does, and however it ends, the state at its end keeps what the iteration
  recorded for that page.\<close>

lemma scrape_loop_page:
  assumes q: "queue e = u # q" and m: "u \<in> queued e" and v: "u \<notin> visited e"
    and c: "c < max_pages cfg" and f: "fetch u = Inr (links, md)"
  shows "keeps (admit_links u links (record_page u md (e\<lparr>queue := q, queued := queued e - {u}\<rparr>)))
           (snd (scrape_loop rt cfg fetch c e))"
proof -
  let ?d = "e\<lparr>queue := q, queued := queued e - {u}\<rparr>"
  let ?e2 = "admit_links u links (record_page u md ?d)"
  have deq: "dequeue e = Inr ?d"
    using q m by (simp add: dequeue_def popleft_def Let_def)
  obtain raised e3 where pc: "periodic_checkpoint rt cfg (c + 1) ?e2 = (raised, e3)"
    by (cases "periodic_checkpoint rt cfg (c + 1) ?e2")
  then have k3: "keeps ?e2 e3" by (rule keeps_periodic)
  show ?thesis
  proof (cases raised)
    case (Some ex)
    with q c deq v f pc have "scrape_loop rt cfg fetch c e = (Inl ex, e3)"
      by (simp add: scrape_loop.simps [of rt cfg fetch c e] Let_def)
    with k3 show ?thesis by simp
  next
    case None
    with q c deq v f pc
    have "scrape_loop rt cfg fetch c e = scrape_loop rt cfg fetch (c + 1) e3"
      by (simp add: scrape_loop.simps [of rt cfg fetch c e] Let_def)
    moreover have "keeps e3 (snd (scrape_loop rt cfg fetch (c + 1) e3))"
      by (rule scrape_loop_keeps) (rule surjective_pairing)
    ultimately show ?thesis
      using k3 by (auto intro: keeps_trans)
  qed
qed

text \<open>
  C6: the fetch of the URL at the head of the queue fails (the request raises an
  \<^verbatim>\<open>Exception\<close>, or extracting the metadata does). \<open>fetch_links\<close> returns no links and
  empty metadata. Whatever the rest of the loop does, the state at its end has the
  URL in the visited set and among the reported pages, right after the pages
  reported before, has a node for it (with no attributes, unless an earlier
  \<open>add_edge\<close> or run gave it some), and has no edge from it that was not there
  before. The loop does not abort: when the URL was the last of the queue, or the
  budget is used up with it, the loop returns with the counter one higher; when
  another URL follows, the loop goes on to process it (it is reported next, if its
  own fetch returns). The last part gives the state at the next test of the loop
  condition. The hypotheses say that the loop is about to process the URL: it
  heads the queue, is in \<open>queued\<close> and not yet visited, the budget is not used up,
  the checkpoint interval is not 0, and the URLs behind it in the queue are ones
  that \<open>urlparse\<close> accepts (as every admitted link is), so that the summary printed
  with a periodic checkpoint does not raise.
\<close>

theorem fetch_failure_recovery:
  assumes fail: "fetch_fails http url"
    and q: "queue e = url # rest" and m: "url \<in> queued e" and v: "url \<notin> visited e"
    and c: "counter < max_pages cfg" and i: "checkpoint_interval cfg \<noteq> 0"
    and p: "\<forall>l \<in> set rest. urlparse rt l \<noteq> None"
  shows "fetch_links rt cfg http url = Inr ([], Map.empty)
         \<and> url \<in> visited (snd (scrape_loop rt cfg (fetch_links rt cfg http) counter e))
         \<and> prefix (progress e @ [url])
             (progress (snd (scrape_loop rt cfg (fetch_links rt cfg http) counter e)))
         \<and> nodes (graph (snd (scrape_loop rt cfg (fetch_links rt cfg http) counter e))) url
             = Some (case nodes (graph e) url of None \<Rightarrow> Map.empty | Some old \<Rightarrow> old)
         \<and> (\<forall>x. (url, x) \<in> edges (graph (snd (scrape_loop rt cfg (fetch_links rt cfg http)
                                                   counter e)))
                 \<longrightarrow> (url, x) \<in> edges (graph e))
         \<and> (rest = [] \<or> max_pages cfg \<le> counter + 1
              \<longrightarrow> fst (scrape_loop rt cfg (fetch_links rt cfg http) counter e)
                    = Inr (counter + 1))
         \<and> (\<forall>nxt more links md.
               rest = nxt # more \<and> counter + 1 < max_pages cfg
               \<and> nxt \<in> queued e \<and> nxt \<noteq> url \<and> nxt \<notin> visited e
               \<and> fetch_links rt cfg http nxt = Inr (links, md)
               \<longrightarrow> prefix (progress e @ [url, nxt])
                     (progress (snd (scrape_loop rt cfg (fetch_links rt cfg http) counter e))))
         \<and> (\<exists>e1. scrape_loop rt cfg (fetch_links rt cfg http) counter e
                    = scrape_loop rt cfg (fetch_links rt cfg http) (counter + 1) e1
                \<and> visited e1 = insert url (visited e)
                \<and> nodes (graph e1)
                    = (nodes (graph e))(url \<mapsto>
                         (case nodes (graph e) url of None \<Rightarrow> Map.empty | Some old \<Rightarrow> old))
                \<and> edges (graph e1) = edges (graph e)
                \<and> queue e1 = rest \<and> queued e1 = queued e - {url}
                \<and> progress e1 = progress e @ [url])"
proof -
  let ?fetch = "fetch_links rt cfg http"
  let ?end = "snd (scrape_loop rt cfg ?fetch counter e)"
  let ?d = "e\<lparr>queue := rest, queued := queued e - {url}\<rparr>"
  let ?e2 = "admit_links url [] (record_page url Map.empty ?d)"
  let ?attrs = "case nodes (graph e) url of None \<Rightarrow> Map.empty | Some old \<Rightarrow> old"
  have f: "?fetch url = Inr ([], Map.empty)"
    using fail by (rule fetch_links_failure)
  have e2: "visited ?e2 = insert url (visited e)" "progress ?e2 = progress e @ [url]"
    "edges (graph ?e2) = edges (graph e)" "queue ?e2 = rest" "queued ?e2 = queued e - {url}"
    by (simp_all add: admit_links_def record_page_def add_node_def)
  have n2: "nodes (graph ?e2) = (nodes (graph e))(url \<mapsto> ?attrs)"
    by (auto simp: admit_links_def record_page_def add_node_def split: option.splits)
  have k: "keeps ?e2 ?end"
    using q m v c f by (rule scrape_loop_page)
  have vis: "url \<in> visited ?end"
    using k e2(1) by (auto simp: keeps_def)
  have rep: "prefix (progress e @ [url]) (progress ?end)"
    using k e2(2) by (simp add: keeps_def)
  have "url \<in> visited ?e2" "nodes (graph ?e2) url = Some ?attrs"
    using e2(1) n2 by simp_all
  with k have nd: "nodes (graph ?end) url = Some ?attrs"
    unfolding keeps_def by blast
  have ed: "\<forall>x. (url, x) \<in> edges (graph ?end) \<longrightarrow> (url, x) \<in> edges (graph e)"
    using k e2(1,3) by (auto simp: keeps_def)
  have deq: "dequeue e = Inr ?d"
    using q m by (simp add: dequeue_def popleft_def Let_def)
  have "\<forall>l \<in> set (queue ?e2). urlparse rt l \<noteq> None"
    using p e2(4) by simp
  from periodic_checkpoint_ok [OF i this, of "counter + 1"]
  obtain e3 where all: "periodic_checkpoint rt cfg (counter + 1) ?e2 = (None, e3) \<and> queue e3 = queue ?e2
      \<and> queued e3 = queued ?e2 \<and> visited e3 = visited ?e2 \<and> progress e3 = progress ?e2
      \<and> graph e3 = graph ?e2 \<and> output_file e3 = output_file ?e2"
    by (rule exE)
  then have pc: "periodic_checkpoint rt cfg (counter + 1) ?e2 = (None, e3)" by simp
  have loop: "scrape_loop rt cfg ?fetch counter e = scrape_loop rt cfg ?fetch (counter + 1) e3"
    using q c deq v f pc by (simp add: scrape_loop.simps [of rt cfg ?fetch counter e] Let_def)
  have e3: "visited e3 = insert url (visited e)" "queue e3 = rest" "queued e3 = queued e - {url}"
       "progress e3 = progress e @ [url]" "edges (graph e3) = edges (graph e)"
       "nodes (graph e3) = (nodes (graph e))(url \<mapsto> ?attrs)"
    using all e2 n2 by simp_all
  have last: "rest = [] \<or> max_pages cfg \<le> counter + 1
                \<longrightarrow> fst (scrape_loop rt cfg ?fetch counter e) = Inr (counter + 1)"
  proof
    assume "rest = [] \<or> max_pages cfg \<le> counter + 1"
    with e3(2) have "\<not> (queue e3 \<noteq> [] \<and> counter + 1 < max_pages cfg)" by auto
    then have "scrape_loop rt cfg ?fetch (counter + 1) e3 = (Inr (counter + 1), e3)"
      by (rule scrape_loop_stop)
    with loop show "fst (scrape_loop rt cfg ?fetch counter e) = Inr (counter + 1)" by simp
  qed
  have nxt: "prefix (progress e @ [url, nxt]) (progress ?end)"
    if n: "rest = nxt # more" "counter + 1 < max_pages cfg" "nxt \<in> queued e" "nxt \<noteq> url"
          "nxt \<notin> visited e" "?fetch nxt = Inr (links, md)"
    for nxt more links md
  proof -
    let ?d3 = "e3\<lparr>queue := more, queued := queued e3 - {nxt}\<rparr>"
    have "keeps (admit_links nxt links (record_page nxt md ?d3))
            (snd (scrape_loop rt cfg ?fetch (counter + 1) e3))"
      by (rule scrape_loop_page) (use n e3 in auto)
    then have "prefix (progress (admit_links nxt links (record_page nxt md ?d3))) (progress ?end)"
      unfolding loop by (simp add: keeps_def)
    moreover have "progress (admit_links nxt links (record_page nxt md ?d3))
                     = progress e @ [url, nxt]"
      using e3(4) by (simp add: admit_links_progress record_page_def)
    ultimately show ?thesis by simp
  qed
  have "\<exists>e1. scrape_loop rt cfg ?fetch counter e = scrape_loop rt cfg ?fetch (counter + 1) e1
                \<and> visited e1 = insert url (visited e)
                \<and> nodes (graph e1) = (nodes (graph e))(url \<mapsto> ?attrs)
                \<and> edges (graph e1) = edges (graph e)
                \<and> queue e1 = rest \<and> queued e1 = queued e - {url}
                \<and> progress e1 = progress e @ [url]"
    using loop e3 by (intro exI [of _ e3]) simp
  with f vis rep nd ed last nxt show ?thesis
    by (intro conjI allI impI) (simp_all, blast)
qed

lemma dead_crawl_eval:
  "fst dead_crawl = Inr 3
   \<and> progress (snd dead_crawl) = [''https://d/a'', ''https://d/b'']
   \<and> visited (snd dead_crawl) = {''https://d/b'', ''https://d/a'', ''https://d/''}
   \<and> edges (graph (snd dead_crawl))
       = {(''https://d/'', ''https://d/a''), (''https://d/'', ''https://d/b'')}"
  unfolding dead_crawl_def two_waiting_def
  by (simp add: run_defs scrape_loop.simps fetch_links_def dead_site_def roomy_params_def)

theorem fetch_failure_recovery_witness:
  "fetch_fails dead_site ''https://d/a''
   \<and> queue two_waiting = [''https://d/a'', ''https://d/b'']
   \<and> ''https://d/a'' \<in> queued two_waiting \<and> ''https://d/a'' \<notin> visited two_waiting
   \<and> 1 < max_pages roomy_params \<and> checkpoint_interval roomy_params \<noteq> 0
   \<and> urlparse plain_runtime ''https://d/b'' \<noteq> None
   \<and> fetch_links plain_runtime roomy_params dead_site ''https://d/a'' = Inr ([], Map.empty)
   \<and> ''https://d/a'' \<in> visited (snd dead_crawl)
   \<and> nodes (graph (snd dead_crawl)) ''https://d/a'' = Some Map.empty
   \<and> prefix [''https://d/a''] (progress (snd dead_crawl))
   \<and> prefix [''https://d/a'', ''https://d/b''] (progress (snd dead_crawl))
   \<and> progress (snd dead_crawl) = [''https://d/a'', ''https://d/b'']
   \<and> fst dead_crawl = Inr 3"
proof -
  let ?a = "''https://d/a''" and ?b = "''https://d/b''"
  have fail: "fetch_fails dead_site ?a"
    by (simp add: fetch_fails_def dead_site_def)
  have q: "queue two_waiting = ?a # [?b]" and m: "?a \<in> queued two_waiting"
    and v: "?a \<notin> visited two_waiting"
    by (simp_all add: two_waiting_def load_checkpoint_def)
  have c: "1 < max_pages roomy_params" and i: "checkpoint_interval roomy_params \<noteq> 0"
    and c2: "1 + 1 < max_pages roomy_params"
    by (simp_all add: roomy_params_def)
  have pb: "urlparse plain_runtime ?b \<noteq> None"
    by (rule urlparse_no_brackets) simp_all
  then have p: "\<forall>l \<in> set [?b]. urlparse plain_runtime l \<noteq> None"
    by simp
  have fb: "fetch_links plain_runtime roomy_params dead_site ?b = Inr ([], Map.empty)"
    by (simp add: fetch_links_def dead_site_def)
  have old: "nodes (graph two_waiting) ?a = Some Map.empty" "progress two_waiting = []"
    "?b \<in> queued two_waiting" "?b \<notin> visited two_waiting"
    by (simp_all add: two_waiting_def load_checkpoint_def)
  note r = fetch_failure_recovery [OF fail q m v c i p]
  note r1 = r [THEN conjunct1]
    and r2 = r [THEN conjunct2, THEN conjunct1]
    and r3 = r [THEN conjunct2, THEN conjunct2, THEN conjunct1]
    and r4 = r [THEN conjunct2, THEN conjunct2, THEN conjunct2, THEN conjunct1]
    and r7 = r [THEN conjunct2, THEN conjunct2, THEN conjunct2, THEN conjunct2, THEN conjunct2,
                THEN conjunct2, THEN conjunct1]
  have "fetch_links plain_runtime roomy_params dead_site ?a = Inr ([], Map.empty)"
    by (rule r1)
  moreover have "?a \<in> visited (snd dead_crawl)"
    unfolding dead_crawl_def by (rule r2)
  moreover have "prefix [?a] (progress (snd dead_crawl))"
    unfolding dead_crawl_def using r3 old(2) by simp
  moreover have "nodes (graph (snd dead_crawl)) ?a = Some Map.empty"
    unfolding dead_crawl_def using r4 old(1) by simp
  moreover have "prefix (progress two_waiting @ [?a, ?b]) (progress (snd dead_crawl))"
    unfolding dead_crawl_def
    by (rule r7 [rule_format, of ?b "[]" "[]" Map.empty]) (use old fb c2 in simp)
  then have "prefix [?a, ?b] (progress (snd dead_crawl))"
    using old(2) by simp
  ultimately show ?thesis
    using fail q m v c i pb dead_crawl_eval by simp
qed

section \<open>The page budget\<close>

lemma admit_links_queue_grows: "queue e \<noteq> [] \<Longrightarrow> queue (admit_links url links e) \<noteq> []"
  by (induction links arbitrary: e) (auto simp: admit_links_def admit_link_def Let_def)

lemma dequeue_progress: "dequeue e = Inr d \<Longrightarrow> progress d = progress e"
  by (auto simp: dequeue_def popleft_def Let_def split: if_splits)

lemma periodic_checkpoint_progress:
  "periodic_checkpoint rt cfg n e = (r, e3) \<Longrightarrow> progress e3 = progress e \<and> queue e3 = queue e"
  by (auto simp: periodic_checkpoint_def save_checkpoint_def write_checkpoint_def
           split: if_splits)

text \<open>The counter and the number of reported pages move together; the loop
  returns with the queue empty or the counter not below the budget.\<close>

lemma scrape_loop_budget:
  "scrape_loop rt cfg fetch c e = (r, e1) \<Longrightarrow>
     length (progress e) \<le> length (progress e1)
     \<and> length (progress e1) \<le> length (progress e) + (max_pages cfg - c)
     \<and> (\<forall>n. r = Inr n \<longrightarrow>
           length (progress e1) = length (progress e) + (n - c) \<and> c \<le> n
           \<and> (queue e1 \<noteq> [] \<longrightarrow> max_pages cfg \<le> n))"
proof (induction rt cfg fetch c e arbitrary: r e1 rule: scrape_loop.induct)
  case (1 rt cfg fetch counter e)
  note res = "1.prems"
  show ?case
  proof (cases "queue e \<noteq> [] \<and> counter < max_pages cfg")
    case False
    with res have "r = Inr counter" "e1 = e"
      by (auto simp: scrape_loop.simps [of rt cfg fetch counter e])
    with False show ?thesis by auto
  next
    case go: True
    let ?url = "hd (queue e)"
    show ?thesis
    proof (cases "dequeue e")
      case (Inl ex)
      with go res have "r = Inl ex" "e1 = popleft e"
        by (auto simp: scrape_loop.simps [of rt cfg fetch counter e] Let_def)
      then show ?thesis by (simp add: popleft_def)
    next
      case (Inr d)
      then have pd: "progress d = progress e" by (rule dequeue_progress)
      show ?thesis
      proof (cases "?url \<in> visited d")
        case True
        with go Inr res have rec: "scrape_loop rt cfg fetch counter d = (r, e1)"
          by (simp add: scrape_loop.simps [of rt cfg fetch counter e] Let_def)
        from "1.IH"(1) [OF go refl refl Inr True] rec pd show ?thesis
          by simp
      next
        case new: False
        show ?thesis
        proof (cases "fetch ?url")
          case (Inl ex)
          with go Inr new res have "r = Inl ex" "e1 = d"
            by (auto simp: scrape_loop.simps [of rt cfg fetch counter e] Let_def)
          with pd show ?thesis by simp
        next
          case fr: (Inr lm)
          obtain links md where lm: "lm = (links, md)" by (cases lm)
          let ?e2 = "admit_links ?url links (record_page ?url md d)"
          have p2: "length (progress ?e2) = length (progress e) + 1"
            by (simp add: admit_links_progress record_page_def pd)
          obtain raised e3 where pc: "periodic_checkpoint rt cfg (counter + 1) ?e2 = (raised, e3)"
            by (cases "periodic_checkpoint rt cfg (counter + 1) ?e2")
          from pc have p3: "length (progress e3) = length (progress e) + 1"
            using p2 periodic_checkpoint_progress by fastforce
          show ?thesis
          proof (cases raised)
            case (Some ex)
            with go Inr new fr lm res pc have "r = Inl ex" "e1 = e3"
              by (auto simp: scrape_loop.simps [of rt cfg fetch counter e] Let_def)
            with p3 go show ?thesis by auto
          next
            case None
            with go Inr new fr lm res pc have rec: "scrape_loop rt cfg fetch (counter + 1) e3 = (r, e1)"
              by (simp add: scrape_loop.simps [of rt cfg fetch counter e] Let_def)
            from fr lm have fr2: "fetch ?url = Inr (links, md)" by simp
            from pc None have "fst (periodic_checkpoint rt cfg (counter + 1) ?e2) = None"
              "e3 = snd (periodic_checkpoint rt cfg (counter + 1) ?e2)"
              by simp_all
            from "1.IH"(2) [OF go refl refl Inr new fr2 refl refl refl refl this(1)] this(2) rec
            have "length (progress e3) \<le> length (progress e1)
               \<and> length (progress e1) \<le> length (progress e3) + (max_pages cfg - (counter + 1))
               \<and> (\<forall>n. r = Inr n \<longrightarrow>
                     length (progress e1) = length (progress e3) + (n - (counter + 1))
                     \<and> counter + 1 \<le> n \<and> (queue e1 \<noteq> [] \<longrightarrow> max_pages cfg \<le> n))"
              by simp
            with p3 go show ?thesis by auto
          qed
        qed
      qed
    qed
  qed
qed

text \<open>The URLs that the crawl can still come to: none when the queue is empty;
  the same ones when the loop skips a visited URL; and when the loop processes
  the page at the head of the queue, only that page leaves the set.\<close>

lemma frontier_reach_empty: "frontier_reach succs seen {} = {}"
proof -
  have "False" if "x \<in> frontier_reach succs seen {}" for x
    using that by induction auto
  then show ?thesis by auto
qed

lemma frontier_reach_mono:
  assumes "seen \<subseteq> seen1"
    and "\<forall>w \<in> front1. w \<notin> seen1 \<longrightarrow> w \<in> frontier_reach succs seen front"
  shows "frontier_reach succs seen1 front1 \<subseteq> frontier_reach succs seen front"
proof
  fix x
  assume "x \<in> frontier_reach succs seen1 front1"
  then show "x \<in> frontier_reach succs seen front"
  proof induction
    case (front w)
    with assms(2) show ?case by blast
  next
    case (link w l)
    from link.hyps(3) assms(1) have "l \<notin> seen" by blast
    with link.IH link.hyps(2) show ?case by (rule frontier_reach.link)
  qed
qed

lemma frontier_reach_skip:
  assumes "u \<in> seen"
  shows "frontier_reach succs seen front \<subseteq> frontier_reach succs seen (front - {u})"
proof
  fix x
  assume "x \<in> frontier_reach succs seen front"
  then show "x \<in> frontier_reach succs seen (front - {u})"
  proof induction
    case (front w)
    with assms have "w \<in> front - {u}" by auto
    then show ?case using front(2) by (rule frontier_reach.front)
  next
    case (link w l)
    from link.IH link.hyps(2,3) show ?case by (rule frontier_reach.link)
  qed
qed

lemma frontier_reach_page:
  assumes a: "front - {u} \<subseteq> front1" and b: "set (succs u) - insert u seen \<subseteq> front1"
  shows "frontier_reach succs seen front \<subseteq> insert u (frontier_reach succs (insert u seen) front1)"
proof
  fix x
  assume "x \<in> frontier_reach succs seen front"
  then show "x \<in> insert u (frontier_reach succs (insert u seen) front1)"
  proof induction
    case (front w)
    show ?case
    proof (cases "w = u")
      case True
      then show ?thesis by simp
    next
      case False
      with front a have "w \<in> front1" "w \<notin> insert u seen" by auto
      then have "w \<in> frontier_reach succs (insert u seen) front1"
        by (rule frontier_reach.front)
      then show ?thesis by simp
    qed
  next
    case (link w l)
    show ?case
    proof (cases "l = u")
      case True
      then show ?thesis by simp
    next
      case lu: False
      with link.hyps(3) have ls: "l \<notin> insert u seen" by simp
      show ?thesis
      proof (cases "w = u")
        case True
        with link.hyps(2) ls b have "l \<in> front1" by auto
        then have "l \<in> frontier_reach succs (insert u seen) front1"
          using ls by (rule frontier_reach.front)
        then show ?thesis by simp
      next
        case False
        with link.IH have "w \<in> frontier_reach succs (insert u seen) front1" by simp
        then have "l \<in> frontier_reach succs (insert u seen) front1"
          using link.hyps(2) ls by (rule frontier_reach.link)
        then show ?thesis by simp
      qed
    qed
  qed
qed

lemma set_fresh: "set (fresh seen xs) = set xs - seen"
  by (induction xs arbitrary: seen) auto

text \<open>On a site whose pages never run out, the loop returns and leaves URLs in
  the queue: the fetcher is a fixed function that returns, the links of the pages
  that the crawl can come to are ones that \<open>urlparse\<close> accepts, as are the URLs of the
  queue, and \<open>queued\<close> mirrors the queue.\<close>

lemma scrape_loop_unbounded:
  "scrape_loop rt cfg fetch c e = (r, e1) \<Longrightarrow>
   \<forall>u. fetch u = Inr (succs u, meta u) \<Longrightarrow> checkpoint_interval cfg \<noteq> 0 \<Longrightarrow>
   \<forall>u \<in> frontier_reach succs (visited e) (set (queue e)).
      \<forall>l \<in> set (succs u). urlparse rt l \<noteq> None \<Longrightarrow>
   queued e = set (queue e) \<Longrightarrow> distinct (queue e) \<Longrightarrow>
   \<forall>l \<in> set (queue e). urlparse rt l \<noteq> None \<Longrightarrow>
   infinite (frontier_reach succs (visited e) (set (queue e))) \<Longrightarrow>
   (\<exists>n. r = Inr n) \<and> queue e1 \<noteq> []"
proof (induction rt cfg fetch c e arbitrary: r e1 rule: scrape_loop.induct)
  case (1 rt cfg fetch counter e)
  note res = "1.prems"(1) and f = "1.prems"(2) and i = "1.prems"(3) and a = "1.prems"(4)
    and m = "1.prems"(5) and d = "1.prems"(6) and pq = "1.prems"(7) and inf = "1.prems"(8)
  from inf have ne: "queue e \<noteq> []"
    using frontier_reach_empty [of succs "visited e"] by auto
  show ?case
  proof (cases "queue e \<noteq> [] \<and> counter < max_pages cfg")
    case False
    then have "scrape_loop rt cfg fetch counter e = (Inr counter, e)"
      by (rule scrape_loop_stop)
    with res ne show ?thesis by auto
  next
    case go: True
    then obtain u q where uq: "queue e = u # q" by (cases "queue e") auto
    let ?V = "visited e"
    let ?d = "e\<lparr>queue := q, queued := queued e - {u}\<rparr>"
    have hd: "hd (queue e) = u" using uq by simp
    have deq: "dequeue e = Inr ?d"
      using uq m by (simp add: dequeue_def popleft_def Let_def)
    have md: "queued ?d = set (queue ?d)" and dd: "distinct (queue ?d)"
      and pd: "\<forall>l \<in> set (queue ?d). urlparse rt l \<noteq> None"
      using uq m d pq by auto
    show ?thesis
    proof (cases "u \<in> ?V")
      case True
      then have vis: "hd (queue e) \<in> visited ?d" using hd by simp
      from go deq vis res have "scrape_loop rt cfg fetch counter ?d = (r, e1)"
        by (simp add: scrape_loop.simps [of rt cfg fetch counter e] Let_def)
      then have rec: "scrape_loop rt cfg fetch (counter + 1 - 1) ?d = (r, e1)" by simp
      have sub: "frontier_reach succs ?V (set (queue e)) \<subseteq> frontier_reach succs ?V (set q)"
        using frontier_reach_skip [OF True, of succs "set (queue e)"] uq d by simp
      have sup: "frontier_reach succs ?V (set q) \<subseteq> frontier_reach succs ?V (set (queue e))"
        by (rule frontier_reach_mono) (auto simp: uq intro: frontier_reach.front)
      from sub inf have infd: "infinite (frontier_reach succs (visited ?d) (set (queue ?d)))"
        by (auto dest: infinite_super)
      from sup a have ad: "\<forall>u \<in> frontier_reach succs (visited ?d) (set (queue ?d)).
                             \<forall>l \<in> set (succs u). urlparse rt l \<noteq> None"
        by auto
      from "1.IH"(1) [OF go refl refl deq vis rec f i ad md dd pd infd]
      show ?thesis .
    next
      case new: False
      then have nv: "hd (queue e) \<notin> visited ?d" using hd by simp
      have fr: "fetch (hd (queue e)) = Inr (succs u, meta u)"
        using f hd by simp
      have ur: "u \<in> frontier_reach succs ?V (set (queue e))"
        using uq new by (auto intro: frontier_reach.front)
      let ?rp = "record_page (hd (queue e)) (meta u) ?d"
      let ?e2 = "admit_links (hd (queue e)) (succs u) ?rp"
      let ?new = "fresh (insert u ?V \<union> set q) (succs u)"
      let ?e3 = "snd (periodic_checkpoint rt cfg (counter + 1) ?e2)"
      have mrp: "queued ?rp = set (queue ?rp)"
        using md by (simp add: record_page_def)
      note eff = admit_links_effect [OF mrp, of "hd (queue e)" "succs u"]
      have q2: "queue ?e2 = q @ ?new" and m2: "queued ?e2 = set (queue ?e2)"
        and v2: "visited ?e2 = insert u ?V"
        using eff hd by (simp_all add: record_page_def)
      have new_sub: "set ?new \<subseteq> set (succs u)" by (rule fresh_subset)
      have p2: "\<forall>l \<in> set (queue ?e2). urlparse rt l \<noteq> None"
        using q2 pd a ur new_sub by auto
      from periodic_checkpoint_ok [OF i p2, of "counter + 1"]
      have pc: "fst (periodic_checkpoint rt cfg (counter + 1) ?e2) = None"
        and q3: "queue ?e3 = queue ?e2" and m3': "queued ?e3 = queued ?e2"
        and v3: "visited ?e3 = visited ?e2"
        by auto
      from go deq nv fr pc res have rec: "scrape_loop rt cfg fetch (counter + 1) ?e3 = (r, e1)"
        by (simp add: scrape_loop.simps [of rt cfg fetch counter e] Let_def)
      have m3: "queued ?e3 = set (queue ?e3)" using m3' m2 q3 by simp
      have "set ?new \<inter> (insert u ?V \<union> set q) = {}" by (rule fresh_disjoint)
      then have d3: "distinct (queue ?e3)"
        using q3 q2 dd fresh_distinct [of "insert u ?V \<union> set q" "succs u"] by auto
      have p3: "\<forall>l \<in> set (queue ?e3). urlparse rt l \<noteq> None" using p2 q3 by simp
      have "frontier_reach succs ?V (set (queue e))
              \<subseteq> insert u (frontier_reach succs (insert u ?V) (set (q @ ?new)))"
        by (rule frontier_reach_page) (auto simp: uq set_fresh)
      then have "infinite (insert u (frontier_reach succs (insert u ?V) (set (q @ ?new))))"
        using inf by (rule infinite_super)
      then have inf3: "infinite (frontier_reach succs (visited ?e3) (set (queue ?e3)))"
        using q3 q2 v3 v2 by simp
      have "frontier_reach succs (insert u ?V) (set (q @ ?new))
              \<subseteq> frontier_reach succs ?V (set (queue e))"
      proof (rule frontier_reach_mono)
        show "?V \<subseteq> insert u ?V" by auto
        show "\<forall>w \<in> set (q @ ?new). w \<notin> insert u ?V
                \<longrightarrow> w \<in> frontier_reach succs ?V (set (queue e))"
        proof (intro ballI impI)
          fix w
          assume w: "w \<in> set (q @ ?new)" "w \<notin> insert u ?V"
          show "w \<in> frontier_reach succs ?V (set (queue e))"
          proof (cases "w \<in> set q")
            case True
            with w uq show ?thesis by (auto intro: frontier_reach.front)
          next
            case False
            with w new_sub have "w \<in> set (succs u)" by auto
            with ur show ?thesis using w(2) by (auto intro: frontier_reach.link)
          qed
        qed
      qed
      with a have a3: "\<forall>u \<in> frontier_reach succs (visited ?e3) (set (queue ?e3)).
                         \<forall>l \<in> set (succs u). urlparse rt l \<noteq> None"
        using q3 q2 v3 v2 by auto
      from "1.IH"(2) [OF go refl refl deq nv fr refl refl refl refl pc rec f i a3 m3 d3 p3 inf3]
      show ?thesis .
    qed
  qed
qed

lemma chain_site_links: "chain_site = (\<lambda>url. Inr ([url @ ''x''], Map.empty))"
  by (rule ext) (simp add: chain_site_def)

lemma chain_resumed_eval:
  "queue chain_resumed = [''https://d/xx''] \<and> queued chain_resumed = {''https://d/xx''}
   \<and> visited chain_resumed = {''https://d/x'', ''https://d/''} \<and> progress chain_resumed = []"
  by (simp add: chain_resumed_def chain_run_eval start_process_def load_checkpoint_def)

lemma chain_reach_plain:
  "u \<in> frontier_reach (\<lambda>u. [u @ ''x'']) seen {''https://d/xx''} \<Longrightarrow>
     CHR ''['' \<notin> set u \<and> CHR '']'' \<notin> set u"
  by (induction rule: frontier_reach.induct) auto

lemma chain_reach_infinite:
  "infinite (frontier_reach (\<lambda>u. [u @ ''x'']) {''https://d/x'', ''https://d/''} {''https://d/xx''})"
proof -
  let ?R = "frontier_reach (\<lambda>u. [u @ ''x'']) {''https://d/x'', ''https://d/''} {''https://d/xx''}"
  let ?f = "\<lambda>n. ''https://d/xx'' @ replicate n CHR ''x''"
  have mem: "?f n \<in> ?R" for n
  proof (induction n)
    case 0
    show ?case by (rule frontier_reach.front) simp_all
  next
    case (Suc n)
    have "?f n @ ''x'' \<in> ?R"
      using Suc by (rule frontier_reach.link) simp_all
    moreover have "?f n @ ''x'' = ?f (Suc n)"
      by (simp add: replicate_append_same)
    ultimately show ?case by simp
  qed
  have inj: "inj ?f" by (simp add: inj_on_def)
  have "infinite (range ?f)"
  proof
    assume "finite (range ?f)"
    then have "finite (UNIV :: nat set)" using inj by (rule finite_imageD)
    then show False by simp
  qed
  moreover have "range ?f \<subseteq> ?R" using mem by auto
  ultimately show ?thesis using infinite_super by blast
qed

lemma chain_longer_eval:
  "progress (snd (scrape plain_runtime roomy_params chain_site chain_resumed))
     = [''https://d/xx'', ''https://d/xxx'']"
  unfolding chain_resumed_def chain_run_eval
  by (simp add: run_defs chain_site_def scrape_loop.simps roomy_params_def)

text \<open>
  C3, amended: \<open>scrape\<close> starts its counter at the number of visited URLs, so the
  budget bounds the visited pages of all runs together. The fetcher is a fixed
  function that returns for every URL; the run, fresh or resumed, starts from a
  state in which \<open>queued\<close> mirrors the queue; the URLs of the queue and the links of
  the pages that the crawl can come to are ones that \<open>urlparse\<close> accepts; and the
  checkpoint interval is not 0. If the link graph reachable from the frontier along
  pages that are not yet visited is unbounded (infinitely many URLs), the loop
  returns normally, with URLs left in the queue, after it has processed exactly
  the budget minus the number of URLs that were visited when the run started, and
  no page when that number reaches the budget.
\<close>

theorem unbounded_crawl_uses_remaining_budget:
  assumes i: "checkpoint_interval cfg \<noteq> 0"
    and a: "\<forall>u \<in> frontier_reach succs (visited e) (set (queue e)).
              \<forall>l \<in> set (succs u). urlparse rt l \<noteq> None"
    and m: "queued e = set (queue e)" and d: "distinct (queue e)"
    and pq: "\<forall>l \<in> set (queue e). urlparse rt l \<noteq> None"
    and inf: "infinite (frontier_reach succs (visited e) (set (queue e)))"
  shows "fst (scrape rt cfg (\<lambda>url. Inr (succs url, meta url)) e)
           = Inr (max (card (visited e)) (max_pages cfg))
         \<and> length (progress (snd (scrape rt cfg (\<lambda>url. Inr (succs url, meta url)) e)))
             = length (progress e) + (max_pages cfg - card (visited e))
         \<and> queue (snd (scrape rt cfg (\<lambda>url. Inr (succs url, meta url)) e)) \<noteq> []"
proof -
  let ?fetch = "\<lambda>url. Inr (succs url, meta url)"
  let ?c = "card (visited e)"
  obtain r e1 where run: "scrape_loop rt cfg ?fetch ?c e = (r, e1)"
    by (cases "scrape_loop rt cfg ?fetch ?c e")
  have f: "\<forall>u. ?fetch u = Inr (succs u, meta u)" by simp
  from scrape_loop_unbounded [OF run f i a m d pq inf]
  obtain n where n: "r = Inr n" and q1: "queue e1 \<noteq> []" by auto
  from scrape_loop_budget [OF run] n q1
  have "length (progress e1) = length (progress e) + (n - ?c)" "?c \<le> n" "max_pages cfg \<le> n"
    "length (progress e1) \<le> length (progress e) + (max_pages cfg - ?c)"
    by auto
  then have "n = max ?c (max_pages cfg)"
    "length (progress e1) = length (progress e) + (max_pages cfg - ?c)"
    by arith+
  with run n q1 show ?thesis
    by (simp add: scrape_def)
qed

theorem unbounded_crawl_uses_remaining_budget_witness:
  "checkpoint_interval roomy_params \<noteq> 0 \<and> max_pages roomy_params = 4
   \<and> queue chain_resumed = [''https://d/xx''] \<and> queued chain_resumed = {''https://d/xx''}
   \<and> visited chain_resumed = {''https://d/x'', ''https://d/''}
   \<and> urlparse plain_runtime ''https://d/xx'' \<noteq> None
   \<and> infinite (frontier_reach (\<lambda>u. [u @ ''x'']) (visited chain_resumed)
                 (set (queue chain_resumed)))
   \<and> fst (scrape plain_runtime roomy_params chain_site chain_resumed) = Inr 4
   \<and> length (progress (snd (scrape plain_runtime roomy_params chain_site chain_resumed))) = 2
   \<and> progress (snd (scrape plain_runtime roomy_params chain_site chain_resumed))
       = [''https://d/xx'', ''https://d/xxx'']
   \<and> queue (snd (scrape plain_runtime roomy_params chain_site chain_resumed)) \<noteq> []"
proof -
  let ?succs = "\<lambda>u. [u @ ''x'']"
  note cr = chain_resumed_eval [THEN conjunct1]
    chain_resumed_eval [THEN conjunct2, THEN conjunct1]
    chain_resumed_eval [THEN conjunct2, THEN conjunct2, THEN conjunct1]
    chain_resumed_eval [THEN conjunct2, THEN conjunct2, THEN conjunct2]
  have i: "checkpoint_interval roomy_params \<noteq> 0" and mp: "max_pages roomy_params = 4"
    by (simp_all add: roomy_params_def)
  have a: "\<forall>u \<in> frontier_reach ?succs (visited chain_resumed) (set (queue chain_resumed)).
             \<forall>l \<in> set (?succs u). urlparse plain_runtime l \<noteq> None"
  proof (intro ballI)
    fix u l
    assume "u \<in> frontier_reach ?succs (visited chain_resumed) (set (queue chain_resumed))"
      and l: "l \<in> set (?succs u)"
    then have "CHR ''['' \<notin> set u \<and> CHR '']'' \<notin> set u"
      using chain_reach_plain [of u "visited chain_resumed"] by (simp add: cr)
    with l show "urlparse plain_runtime l \<noteq> None"
      by (intro urlparse_no_brackets) auto
  qed
  have m: "queued chain_resumed = set (queue chain_resumed)" and d: "distinct (queue chain_resumed)"
    by (simp_all add: cr)
  have px: "urlparse plain_runtime ''https://d/xx'' \<noteq> None"
    by (rule urlparse_no_brackets) simp_all
  then have pq: "\<forall>l \<in> set (queue chain_resumed). urlparse plain_runtime l \<noteq> None"
    by (simp add: cr)
  have inf: "infinite (frontier_reach ?succs (visited chain_resumed) (set (queue chain_resumed)))"
    using chain_reach_infinite by (simp add: cr)
  have c: "card (visited chain_resumed) = 2"
    by (simp add: cr)
  note r = unbounded_crawl_uses_remaining_budget
             [OF i a m d pq inf, of "\<lambda>u. Map.empty", folded chain_site_links]
  from r c mp cr(4) have "fst (scrape plain_runtime roomy_params chain_site chain_resumed) = Inr 4"
    "length (progress (snd (scrape plain_runtime roomy_params chain_site chain_resumed))) = 2"
    "queue (snd (scrape plain_runtime roomy_params chain_site chain_resumed)) \<noteq> []"
    by simp_all
  then show ?thesis
    using i mp cr px inf chain_longer_eval by simp
qed

text \<open>
  C3, as stated, fails: on the chain site, where every page links to a new page,
  the fresh run with a budget of two pages processes two pages and saves a
  checkpoint. The run resumed from it finds two visited URLs and processes no page,
  although the queue is not empty.
\<close>

theorem budget_per_run_counterexample:
  "max_pages small_params = 2
   \<and> chain_rerun = main plain_runtime small_params chain_site (checkpoint_file (snd chain_run))
   \<and> checkpoint_file (snd chain_run)
       = Some (graph (snd chain_run), visited (snd chain_run), queue (snd chain_run),
               queued (snd chain_run))
   \<and> visited (snd chain_run) = {''https://d/x'', ''https://d/''}
   \<and> queue (snd chain_run) = [''https://d/xx'']
   \<and> progress (snd chain_rerun) = []
   \<and> queue (snd chain_rerun) = [''https://d/xx'']"
proof -
  have "chain_rerun = main plain_runtime small_params chain_site (checkpoint_file (snd chain_run))"
    by (rule chain_rerun_def)
  moreover have "max_pages small_params = 2"
    by (simp add: small_params_def)
  moreover have "progress (snd chain_rerun) = []" "queue (snd chain_rerun) = [''https://d/xx'']"
    by (simp_all add: chain_rerun_eval)
  moreover have "checkpoint_file (snd chain_run)
       = Some (graph (snd chain_run), visited (snd chain_run), queue (snd chain_run),
               queued (snd chain_run))"
    "visited (snd chain_run) = {''https://d/x'', ''https://d/''}"
    "queue (snd chain_run) = [''https://d/xx'']"
    by (simp_all add: chain_run_eval)
  ultimately show ?thesis by blast
qed

section \<open>Interruption and resumption\<close>

lemma not_Exception: "\<not> is_Exception ex \<Longrightarrow> ex = KeyboardInterrupt"
  by (cases ex) auto

text \<open>
  C8 on the code: the site of two pages, crawled in one run, exports a graph with
  both pages and the link between them. When the first run is interrupted while
  it fetches the base URL, the URL has already left the queue and \<open>queued\<close> and is
  not yet visited: the checkpoint that the handler saves holds an empty queue, and
  the resumed run exports the empty graph.
\<close>

theorem interrupted_fetch_loses_page:
  "fst interrupted_run = ExitNormal
   \<and> checkpoint_file (snd interrupted_run) = Some (empty_graph, {}, [], {})
   \<and> resumed_run = main plain_runtime small_params two_pages (checkpoint_file (snd interrupted_run))
   \<and> output_file (snd resumed_run) = Some empty_graph
   \<and> output_file (snd whole_run)
       = Some \<lparr>nodes = [''https://d/'' \<mapsto> Map.empty, ''https://d/a'' \<mapsto> Map.empty],
               edges = {(''https://d/'', ''https://d/a'')}\<rparr>
   \<and> output_file (snd resumed_run) \<noteq> output_file (snd whole_run)"
proof -
  have "resumed_run = main plain_runtime small_params two_pages (checkpoint_file (snd interrupted_run))"
    by (rule resumed_run_def)
  moreover have "fst interrupted_run = ExitNormal"
    "checkpoint_file (snd interrupted_run) = Some (empty_graph, {}, [], {})"
    by (simp_all add: interrupted_run_eval empty_graph_def)
  moreover have "output_file (snd resumed_run) = Some empty_graph"
    by (simp add: resumed_run_eval empty_graph_def)
  moreover have "output_file (snd whole_run)
       = Some \<lparr>nodes = [''https://d/'' \<mapsto> Map.empty, ''https://d/a'' \<mapsto> Map.empty],
               edges = {(''https://d/'', ''https://d/a'')}\<rparr>"
    by (simp add: whole_run_eval)
  moreover have "output_file (snd resumed_run) \<noteq> output_file (snd whole_run)"
    by (simp add: whole_run_eval resumed_run_eval)
  ultimately show ?thesis by blast
qed

text \<open>
  C9, as stated, fails: the fresh run on the site of two pages is interrupted while
  it fetches the base URL; \<open>scrape\<close> ends with \<^verbatim>\<open>KeyboardInterrupt\<close>, the handler saves
  the checkpoint, and the script ends normally: the interrupt is not re-raised.
\<close>

theorem interrupt_not_reraised_counterexample:
  "fst (scrape plain_runtime small_params (interrupt_at (base_url small_params) two_pages)
          (start_process small_params None)) = Inl KeyboardInterrupt
   \<and> interrupted_run
       = main plain_runtime small_params (interrupt_at (base_url small_params) two_pages) None
   \<and> fst interrupted_run = ExitNormal"
proof -
  have "fst (scrape plain_runtime small_params (interrupt_at (base_url small_params) two_pages)
          (start_process small_params None)) = Inl KeyboardInterrupt"
    by (simp add: run_defs two_pages_def interrupt_at_def scrape_loop.simps)
  moreover have "fst interrupted_run = ExitNormal"
    by (simp add: interrupted_run_eval)
  ultimately show ?thesis
    using interrupted_run_def by blast
qed

text \<open>
  C9, amended: whenever the crawl loop is ended by an interrupt or by an error,
  the handler writes a checkpoint with the four globals as they are at that
  moment. After an error the exception is then re-raised and the process ends with
  it; after an interrupt the script ends normally. Both hold when the queue summary
  that \<open>save_checkpoint\<close> prints after writing the file does not raise; when it
  raises (on a queued URL that \<open>urlparse\<close> rejects), its exception ends the process.
\<close>

theorem checkpoint_saved_on_abnormal_end:
  assumes "scrape rt cfg fetch (start_process cfg disk) = (Inl ex, e)"
  shows "checkpoint_file (snd (main rt cfg fetch disk))
           = Some (graph e, visited e, queue e, queued e)
         \<and> (analyze_queue rt e = None \<longrightarrow>
                fst (main rt cfg fetch disk)
                  = (if ex = KeyboardInterrupt then ExitNormal else ExitRaised ex))
         \<and> (\<forall>ex1. analyze_queue rt e = Some ex1 \<longrightarrow>
                fst (main rt cfg fetch disk) = ExitRaised ex1)"
  using assms not_Exception [of ex]
  by (auto simp: main_def after_save_def save_checkpoint_def write_checkpoint_def globals_def
        analyze_queue_def)

theorem checkpoint_saved_on_abnormal_end_witness:
  "scrape plain_runtime no_interval_params two_pages (start_process no_interval_params None)
     = (Inl ZeroDivisionError,
        \<lparr>graph = \<lparr>nodes = [''https://d/'' \<mapsto> Map.empty, ''https://d/a'' \<mapsto> Map.empty],
                  edges = {(''https://d/'', ''https://d/a'')}\<rparr>,
         visited = {''https://d/''}, queue = [''https://d/a''], queued = {''https://d/a''},
         checkpoint_file = None, output_file = None, progress = [''https://d/'']\<rparr>)
   \<and> checkpoint_file (snd (main plain_runtime no_interval_params two_pages None))
       = Some (\<lparr>nodes = [''https://d/'' \<mapsto> Map.empty, ''https://d/a'' \<mapsto> Map.empty],
                edges = {(''https://d/'', ''https://d/a'')}\<rparr>,
               {''https://d/''}, [''https://d/a''], {''https://d/a''})
   \<and> fst (main plain_runtime no_interval_params two_pages None) = ExitRaised ZeroDivisionError
   \<and> scrape plain_runtime small_params (interrupt_at (base_url small_params) two_pages)
         (start_process small_params None)
     = (Inl KeyboardInterrupt,
        \<lparr>graph = empty_graph, visited = {}, queue = [], queued = {},
         checkpoint_file = None, output_file = None, progress = []\<rparr>)
   \<and> checkpoint_file (snd interrupted_run) = Some (empty_graph, {}, [], {})
   \<and> fst interrupted_run = ExitNormal"
proof -
  let ?e = "\<lparr>graph = \<lparr>nodes = [''https://d/'' \<mapsto> Map.empty, ''https://d/a'' \<mapsto> Map.empty],
                  edges = {(''https://d/'', ''https://d/a'')}\<rparr>,
         visited = {''https://d/''}, queue = [''https://d/a''], queued = {''https://d/a''},
         checkpoint_file = None, output_file = None, progress = [''https://d/'']\<rparr>"
  let ?s = "\<lparr>graph = empty_graph, visited = {}, queue = [], queued = {},
         checkpoint_file = None, output_file = None, progress = []\<rparr>"
  have run: "scrape plain_runtime no_interval_params two_pages
               (start_process no_interval_params None) = (Inl ZeroDivisionError, ?e)"
    by (simp add: scrape_def start_process_def fresh_process_def load_checkpoint_def
          base_url_def dequeue_def popleft_def record_page_def admit_links_def admit_link_def
          periodic_checkpoint_def Let_def add_node_def add_edge_def
          touch_node_def empty_graph_def no_interval_params_def two_pages_def scrape_loop.simps)
  have stop: "scrape plain_runtime small_params (interrupt_at (base_url small_params) two_pages)
                (start_process small_params None) = (Inl KeyboardInterrupt, ?s)"
    by (simp add: scrape_def start_process_def fresh_process_def small_params_def base_url_def
          dequeue_def popleft_def Let_def two_pages_def interrupt_at_def scrape_loop.simps)
  have a1: "analyze_queue plain_runtime ?e = None"
    by (simp add: analyze_queue_def urlparse_no_brackets)
  have a2: "analyze_queue plain_runtime ?s = None"
    by (simp add: analyze_queue_def)
  from checkpoint_saved_on_abnormal_end [OF run] checkpoint_saved_on_abnormal_end [OF stop]
       run stop a1 a2
  show ?thesis by (simp add: interrupted_run_def)
qed

section \<open>The admission filter\<close>

lemma parse_ftp_root:
  "urlparse rt ''ftp://visakanv.com/'' =
     Some \<lparr>scheme = ''ftp'', netloc = ''visakanv.com'', path = ''/'', params = [],
           query = [], fragment = []\<rparr>"
  by code_simp

lemma parse_evil_root:
  "urlparse rt ''https://evilvisakanv.com/'' =
     Some \<lparr>scheme = ''https'', netloc = ''evilvisakanv.com'', path = ''/'', params = [],
           query = [], fragment = []\<rparr>"
  by code_simp

lemma parse_blog_post:
  "urlparse rt ''https://blog.visakanv.com/post'' =
     Some \<lparr>scheme = ''https'', netloc = ''blog.visakanv.com'', path = ''/post'', params = [],
           query = [], fragment = []\<rparr>"
  by code_simp

lemma evil_root_valid: "is_valid_url rt source_params ''https://evilvisakanv.com/''"
  by code_simp

lemma evil_host_outside:
  "''evilvisakanv.com'' \<noteq> domain source_params
   \<and> \<not> suffix (''.'' @ domain source_params) ''evilvisakanv.com''"
  by code_simp

text \<open>
  C10, as stated, fails: the host of \<^verbatim>\<open>ftp://visakanv.com/\<close> ends with the
  configured domain (it is the domain), and \<open>is_valid_url\<close> rejects the URL, because
  the scheme test stands beside the domain test.
\<close>

theorem suffix_alone_not_enough_counterexample:
  "urlparse plain_runtime ''ftp://visakanv.com/'' =
     Some \<lparr>scheme = ''ftp'', netloc = ''visakanv.com'', path = ''/'', params = [],
           query = [], fragment = []\<rparr>
   \<and> suffix (domain source_params) ''visakanv.com''
   \<and> \<not> is_valid_url plain_runtime source_params ''ftp://visakanv.com/''"
proof -
  have "\<not> is_valid_url plain_runtime source_params ''ftp://visakanv.com/''"
    by (simp add: is_valid_url_def parse_ftp_root)
  moreover have "suffix (domain source_params) ''visakanv.com''"
    by (simp add: source_params_def)
  ultimately show ?thesis
    using parse_ftp_root [of plain_runtime] by simp
qed

text \<open>
  C10, amended: the domain check is a plain suffix test on the network location
  with no dot boundary. For every URL that parses, has scheme http or https, has
  none of the listed extensions in its path and contains no \<^verbatim>\<open>#\<close>, \<open>is_valid_url\<close>
  accepts it exactly when its network location ends with the configured domain
  string. So for the domain \<^verbatim>\<open>visakanv.com\<close> the URL \<^verbatim>\<open>https://evilvisakanv.com/\<close> is
  accepted, although its host is neither the domain nor ends with a dot followed by
  the domain.
\<close>

theorem domain_check_is_suffix_test:
  "(urlparse rt url = Some p \<and> scheme p \<in> set [''http'', ''https'']
      \<and> \<not> list_ex (\<lambda>ext. sublist ext (path p)) page_extensions \<and> CHR ''#'' \<notin> set url
      \<longrightarrow> is_valid_url rt cfg url = suffix (domain cfg) (netloc p))
   \<and> is_valid_url rt source_params ''https://evilvisakanv.com/''
   \<and> map_option netloc (urlparse rt ''https://evilvisakanv.com/'') = Some ''evilvisakanv.com''
   \<and> ''evilvisakanv.com'' \<noteq> domain source_params
   \<and> \<not> suffix (''.'' @ domain source_params) ''evilvisakanv.com''"
proof -
  have "is_valid_url rt cfg url = suffix (domain cfg) (netloc p)"
    if "urlparse rt url = Some p" "scheme p \<in> set [''http'', ''https'']"
       "\<not> list_ex (\<lambda>ext. sublist ext (path p)) page_extensions" "CHR ''#'' \<notin> set url"
    using that by (simp add: is_valid_url_def)
  moreover have "map_option netloc (urlparse rt ''https://evilvisakanv.com/'') = Some ''evilvisakanv.com''"
    by (simp add: parse_evil_root)
  ultimately show ?thesis
    using evil_root_valid [of rt] evil_host_outside by blast
qed

theorem domain_check_is_suffix_test_witness:
  "urlparse plain_runtime ''https://blog.visakanv.com/post'' =
     Some \<lparr>scheme = ''https'', netloc = ''blog.visakanv.com'', path = ''/post'', params = [],
           query = [], fragment = []\<rparr>
   \<and> suffix (domain source_params) ''blog.visakanv.com''
   \<and> is_valid_url plain_runtime source_params ''https://blog.visakanv.com/post''"
proof -
  let ?p = "\<lparr>scheme = ''https'', netloc = ''blog.visakanv.com'', path = ''/post'', params = [],
           query = [], fragment = []\<rparr>"
  have parse: "urlparse plain_runtime ''https://blog.visakanv.com/post'' = Some ?p"
    by (rule parse_blog_post)
  have sch: "scheme ?p \<in> set [''http'', ''https'']"
    by simp
  have ext: "\<not> list_ex (\<lambda>ext. sublist ext (path ?p)) page_extensions"
    by code_simp
  have hash: "CHR ''#'' \<notin> set ''https://blog.visakanv.com/post''"
    by simp
  have suf: "suffix (domain source_params) (netloc ?p)"
    by code_simp
  from domain_check_is_suffix_test
         [of plain_runtime "''https://blog.visakanv.com/post''" ?p source_params]
       parse sch ext hash suf
  have "is_valid_url plain_runtime source_params ''https://blog.visakanv.com/post''"
    by blast
  with parse suf show ?thesis by simp
qed

lemma urljoin_about_top:
  "urljoin rt ''https://visakanv.com/'' ''/about#top'' = Some ''https://visakanv.com/about#top''"
  by code_simp

text \<open>
  C4 on the code: the page \<^verbatim>\<open>https://visakanv.com/\<close> holds an anchor with the raw
  href \<^verbatim>\<open>/about#top\<close>, which \<open>urljoin\<close> resolves to \<^verbatim>\<open>https://visakanv.com/about#top\<close>.
  \<open>fetch_links\<close> strips the fragment before it calls \<open>is_valid_url\<close>, whose test for
  \<^verbatim>\<open>#\<close> then sees none: the link is admitted as \<^verbatim>\<open>https://visakanv.com/about\<close>,
  while the same test rejects the resolved URL itself.
\<close>

theorem raw_fragment_link_admitted:
  "CHR ''#'' \<in> set ''/about#top''
   \<and> \<not> is_valid_url plain_runtime source_params ''https://visakanv.com/about#top''
   \<and> admit_href plain_runtime source_params ''https://visakanv.com/'' ''/about#top''
       = Some ''https://visakanv.com/about''
   \<and> fetch_links plain_runtime source_params
        (\<lambda>url. Page \<lparr>title_tag = None, page_text = [], date_meta = Some None,
                      hrefs = [''/about#top'']\<rparr>) ''https://visakanv.com/''
       = Inr ([''https://visakanv.com/about''],
              [''url'' \<mapsto> StrVal ''https://visakanv.com/'', ''title'' \<mapsto> StrVal ''No Title'',
               ''word_count'' \<mapsto> IntVal 0, ''pub_date'' \<mapsto> StrVal ''Unknown''])"
proof -
  have a: "admit_href plain_runtime source_params ''https://visakanv.com/'' ''/about#top''
             = Some ''https://visakanv.com/about''"
    by code_simp
  have v: "\<not> is_valid_url plain_runtime source_params ''https://visakanv.com/about#top''"
    by code_simp
  have so: "set_order plain_runtime = remdups"
    by (simp add: plain_runtime_def)
  have m: "fetch_page_metadata ''https://visakanv.com/''
             \<lparr>title_tag = None, page_text = [], date_meta = Some None, hrefs = [''/about#top'']\<rparr>
           = Inr [''url'' \<mapsto> StrVal ''https://visakanv.com/'', ''title'' \<mapsto> StrVal ''No Title'',
               ''word_count'' \<mapsto> IntVal 0, ''pub_date'' \<mapsto> StrVal ''Unknown'']"
    by (simp add: fetch_page_metadata_def split_whitespace.simps)
  have "fetch_links plain_runtime source_params
        (\<lambda>url. Page \<lparr>title_tag = None, page_text = [], date_meta = Some None,
                      hrefs = [''/about#top'']\<rparr>) ''https://visakanv.com/''
       = Inr ([''https://visakanv.com/about''],
              [''url'' \<mapsto> StrVal ''https://visakanv.com/'', ''title'' \<mapsto> StrVal ''No Title'',
               ''word_count'' \<mapsto> IntVal 0, ''pub_date'' \<mapsto> StrVal ''Unknown''])"
    by (simp add: fetch_links_def m a List.map_filter_simps so)
  with a v show ?thesis by simp
qed

text \<open>
  C7 on the code: the page \<^verbatim>\<open>https://visakanv.com/about\<close> has no
  \<^verbatim>\<open>article:published_time\<close> tag and no year and month in its URL. The metadata that
  \<open>fetch_page_metadata\<close> returns has no \<^verbatim>\<open>pub_date\<close> key at all: the string
  \<^verbatim>\<open>Unknown\<close> is assigned only when the scan raises.
\<close>

theorem no_date_signal_leaves_pub_date_unset:
  "fetch_page_metadata ''https://visakanv.com/about''
     \<lparr>title_tag = Some (Some ''About''), page_text = ''hello world'', date_meta = None,
      hrefs = []\<rparr>
   = Inr [''url'' \<mapsto> StrVal ''https://visakanv.com/about'', ''title'' \<mapsto> StrVal ''About'',
          ''word_count'' \<mapsto> IntVal 2]
   \<and> [''url'' \<mapsto> StrVal ''https://visakanv.com/about'', ''title'' \<mapsto> StrVal ''About'',
       ''word_count'' \<mapsto> IntVal 2] ''pub_date'' = None"
proof -
  have s: "scan_date (split_on CHR ''/'' ''https://visakanv.com/about'') None = Inr None"
    by code_simp
  have w: "length (split_whitespace ''hello world'') = 2"
    by code_simp
  have t: "strip ''About'' = ''About''"
    by code_simp
  show ?thesis
    by (simp add: fetch_page_metadata_def s w t)
qed

end

